theory Spec2Isabelle
  imports Main
begin

section \<open>JSON values and the JavaScript built-ins the services rely on\<close>

text \<open>
  Request bodies and stored records are JSON. A number is kept as its ECMAScript
  rendering (what \<^verbatim>\<open>String(n)\<close> and \<^verbatim>\<open>JSON.stringify(n)\<close> print), an object as the
  list of its own properties in order. A missing field (\<^verbatim>\<open>undefined\<close>) is \<open>None\<close>.
\<close>

datatype json =
    JNull
  | JBool bool
  | JNum string
  | JStr string
  | JArr "json list"
  | JObj "(string \<times> json) list"

type_synonym jsval = "json option"

fun join_comma :: "string list \<Rightarrow> string" where
  "join_comma [] = []"
| "join_comma [x] = x"
| "join_comma (x # y # ys) = x @ CHR '','' # join_comma (y # ys)"

text \<open>
  \<^verbatim>\<open>String(v)\<close>, as a template literal and a property key apply it; \<open>None\<close> when it
  throws. An array is its elements joined by commas (\<^verbatim>\<open>null\<close> elements print as
  nothing). Any other object is \<^verbatim>\<open>[object Object]\<close>, unless it has an own property
  \<^verbatim>\<open>toString\<close>: in a parsed object that property is never a function, no other method
  yields a primitive, and the conversion throws a TypeError.
\<close>

fun to_string :: "json \<Rightarrow> string option" where
  "to_string JNull = Some ''null''"
| "to_string (JBool b) = Some (if b then ''true'' else ''false'')"
| "to_string (JNum s) = Some s"
| "to_string (JStr s) = Some s"
| "to_string (JArr xs) =
     map_option join_comma (those (map (\<lambda>x. if x = JNull then Some [] else to_string x) xs))"
| "to_string (JObj kvs) =
     (if ''toString'' \<in> set (map fst kvs) then None else Some ''[object Object]'')"

definition js_string :: "jsval \<Rightarrow> string option" where
  "js_string v = (case v of None \<Rightarrow> Some ''undefined'' | Some x \<Rightarrow> to_string x)"

text \<open>
  \<^verbatim>\<open>Array.prototype.includes\<close> compares with SameValueZero: primitives by value, arrays
  and objects by identity. The list searched is the result of \<^verbatim>\<open>JSON.parse\<close>, whose arrays
  and objects are fresh, so an array or object of the request body is identical to none
  of its elements; neither is \<^verbatim>\<open>undefined\<close>, which JSON cannot hold.
\<close>

fun primitive :: "json \<Rightarrow> bool" where
  "primitive (JArr xs) = False"
| "primitive (JObj kvs) = False"
| "primitive v = True"

definition includes_js :: "json list \<Rightarrow> jsval \<Rightarrow> bool" where
  "includes_js xs v = (case v of None \<Rightarrow> False | Some x \<Rightarrow> primitive x \<and> x \<in> set xs)"

text \<open>What \<^verbatim>\<open>push(v)\<close> leaves in an array once it has been through \<^verbatim>\<open>JSON.stringify\<close>.\<close>

definition pushed :: "jsval \<Rightarrow> json" where
  "pushed v = (case v of None \<Rightarrow> JNull | Some x \<Rightarrow> x)"

fun truthy :: "json \<Rightarrow> bool" where
  "truthy JNull = False"
| "truthy (JBool b) = b"
| "truthy (JNum s) = (s \<noteq> ''0'')"
| "truthy (JStr s) = (s \<noteq> [])"
| "truthy (JArr xs) = True"
| "truthy (JObj kvs) = True"

fun dec :: "nat \<Rightarrow> string" where
  "dec n = (if n < 10 then [''0123456789'' ! n] else dec (n div 10) @ [''0123456789'' ! (n mod 10)])"

declare dec.simps [simp del]

text \<open>The own enumerable properties that an object spread \<^verbatim>\<open>{...v}\<close> copies.\<close>

fun spread :: "jsval \<Rightarrow> (string \<times> json) list" where
  "spread (Some (JObj kvs)) = kvs"
| "spread (Some (JArr xs)) = zip (map dec [0..<length xs]) xs"
| "spread (Some (JStr s)) = zip (map dec [0..<length s]) (map (\<lambda>c. JStr [c]) s)"
| "spread v = []"

text \<open>Defining a property: an existing key keeps its place and takes the new value.\<close>

fun put :: "string \<Rightarrow> json \<Rightarrow> (string \<times> json) list \<Rightarrow> (string \<times> json) list" where
  "put k v [] = [(k, v)]"
| "put k v ((k', v') # kvs) = (if k' = k then (k, v) # kvs else (k', v') # put k v kvs)"

subsection \<open>\<^verbatim>\<open>JSON.stringify\<close>\<close>

definition hex_digit :: "nat \<Rightarrow> char" where
  "hex_digit n = ''0123456789abcdef'' ! n"

definition escape_char :: "char \<Rightarrow> string" where
  "escape_char c =
     (if c = CHR 0x22 then [CHR 0x5C, CHR 0x22]
      else if c = CHR 0x5C then [CHR 0x5C, CHR 0x5C]
      else if c = CHR 0x08 then [CHR 0x5C, CHR ''b'']
      else if c = CHR 0x09 then [CHR 0x5C, CHR ''t'']
      else if c = CHR 0x0A then [CHR 0x5C, CHR ''n'']
      else if c = CHR 0x0C then [CHR 0x5C, CHR ''f'']
      else if c = CHR 0x0D then [CHR 0x5C, CHR ''r'']
      else if (of_char c :: nat) < 32
        then [CHR 0x5C, CHR ''u'', CHR ''0'', CHR ''0'',
              hex_digit ((of_char c :: nat) div 16), hex_digit ((of_char c :: nat) mod 16)]
      else [c])"

definition quote :: "string \<Rightarrow> string" where
  "quote s = CHR 0x22 # concat (map escape_char s) @ [CHR 0x22]"

fun stringify :: "json \<Rightarrow> string" where
  "stringify JNull = ''null''"
| "stringify (JBool b) = (if b then ''true'' else ''false'')"
| "stringify (JNum s) = s"
| "stringify (JStr s) = quote s"
| "stringify (JArr xs) = ''['' @ join_comma (map stringify xs) @ '']''"
| "stringify (JObj kvs) =
     ''{'' @ join_comma (map (\<lambda>kv. quote (fst kv) @ '':'' @ stringify (snd kv)) kvs) @ ''}''"

text \<open>\<^verbatim>\<open>JSON.stringify(undefined)\<close> is \<^verbatim>\<open>undefined\<close>, which a template literal prints.\<close>

definition js_stringify :: "jsval \<Rightarrow> string" where
  "js_stringify v = (case v of None \<Rightarrow> ''undefined'' | Some x \<Rightarrow> stringify x)"

subsection \<open>Well-formed values\<close>

text \<open>
  A number's rendering is not empty, starts with a digit or a minus sign, ends with a
  digit and is made of digits, signs, a point and an exponent mark. The remaining
  definitions name what the proof that the signed message can be read in one way only
  needs: the characters that stand before a value inside a larger text, and the kind of
  value that a last character closes.
\<close>

definition wf_num :: "string \<Rightarrow> bool" where
  "wf_num s =
     (s \<noteq> [] \<and> hd s \<in> set ''-0123456789'' \<and> last s \<in> set ''0123456789'' \<and>
      set s \<subseteq> set ''-+.e0123456789'')"

fun well_formed :: "json \<Rightarrow> bool" where
  "well_formed (JNum s) = wf_num s"
| "well_formed (JArr xs) = (\<forall>x \<in> set xs. well_formed x)"
| "well_formed (JObj kvs) = (\<forall>kv \<in> set kvs. well_formed (snd kv))"
| "well_formed v = True"

definition wf_payload :: "jsval \<Rightarrow> bool" where
  "wf_payload v = (case v of None \<Rightarrow> True | Some x \<Rightarrow> well_formed x)"

definition before :: "string \<Rightarrow> bool" where
  "before l = (l = [] \<or> last l \<in> set '',:[{'')"

fun kind :: "json \<Rightarrow> nat" where
  "kind JNull = 0"
| "kind (JBool b) = 1"
| "kind (JNum s) = 3"
| "kind (JStr s) = 4"
| "kind (JArr xs) = 5"
| "kind (JObj kvs) = 6"

definition closing :: "char \<Rightarrow> nat" where
  "closing c =
     (if c = CHR ''l'' then 0 else if c = CHR ''e'' then 1 else if c = CHR 0x22 then 4
      else if c = CHR '']'' then 5 else if c = CHR ''}'' then 6 else 3)"

section \<open>The Redis store\<close>

text \<open>
  A key holds a value and, when it was set with \<^verbatim>\<open>EX\<close>, the second at which it lapses.
  \<^verbatim>\<open>SET\<close> without options discards the time to live the key had. The stored text is
  modelled by the record that \<^verbatim>\<open>JSON.parse\<close> reads back from it. Time is in seconds.
\<close>

record 'v entry =
  val :: 'v
  expires :: "nat option"

type_synonym 'v redis = "string \<rightharpoonup> 'v entry"

definition redis_get :: "nat \<Rightarrow> 'v redis \<Rightarrow> string \<Rightarrow> 'v option" where
  "redis_get now r k =
     (case r k of
        None \<Rightarrow> None
      | Some e \<Rightarrow>
          (case expires e of
             None \<Rightarrow> Some (val e)
           | Some t \<Rightarrow> if now < t then Some (val e) else None))"

definition redis_set :: "'v redis \<Rightarrow> string \<Rightarrow> 'v \<Rightarrow> 'v redis" where
  "redis_set r k v = r(k \<mapsto> \<lparr>val = v, expires = None\<rparr>)"

definition redis_set_ex :: "nat \<Rightarrow> 'v redis \<Rightarrow> string \<Rightarrow> 'v \<Rightarrow> nat \<Rightarrow> 'v redis" where
  "redis_set_ex now r k v ttl = r(k \<mapsto> \<lparr>val = v, expires = Some (now + ttl)\<rparr>)"

section \<open>Governance service\<close>

definition THRESHOLD :: nat where
  "THRESHOLD = 3"

text \<open>The proposal object that \<^verbatim>\<open>POST /proposals\<close> serialises under \<^verbatim>\<open>proposal:<id>\<close>.\<close>

record proposal =
  proposal_id :: string
  action :: jsval
  payload :: jsval
  requestor :: jsval
  approvals :: "json list"
  status :: string
  createdAt :: nat

text \<open>
  What the service is started with and the library calls it cannot see into:
  \<open>VALIDATORS\<close> maps a validator name to its public key (PEM text); for any other
  name, also one that the object inherits, using \<^verbatim>\<open>VALIDATORS[name].publicKey\<close> throws;
  \<open>crypto_verify message key signature\<close> is
  \<^verbatim>\<open>crypto.verify(null, Buffer.from(message), crypto.createPublicKey(key), Buffer.from(signature, 'base64'))\<close>,
  \<open>None\<close> when one of these calls throws.
\<close>

record env =
  VALIDATORS :: "string \<rightharpoonup> string"
  crypto_verify :: "string \<Rightarrow> string \<Rightarrow> jsval \<Rightarrow> bool option"

text \<open>
  The world the service acts on: its keys in Redis and the bodies of the calls it has
  made to the issuer agent's \<^verbatim>\<open>/revocation/revoke\<close>, oldest first, whether or not a call
  came back with success.
\<close>

record gov_world =
  proposals :: "proposal redis"
  issuer_calls :: "json list"

datatype response =
    Reply nat json
  | ReplyText nat string
  | ReplyEmpty nat

definition error_reply :: "nat \<Rightarrow> string \<Rightarrow> response" where
  "error_reply code msg = Reply code (JObj [(''error'', JStr msg)])"

subsection \<open>\<^verbatim>\<open>POST /proposals\<close>\<close>

text \<open>
  The request once \<open>requireAdmin\<close> has let it through: the clock, the value of
  \<^verbatim>\<open>crypto.randomUUID()\<close>, the body's fields and \<^verbatim>\<open>req.user.username\<close>.
\<close>

record create_req =
  c_now :: nat
  c_uuid :: string
  c_action :: jsval
  c_payload :: jsval
  c_username :: jsval

definition createProposal :: "create_req \<Rightarrow> gov_world \<Rightarrow> response \<times> gov_world" where
  "createProposal r w =
     (Reply 201 (JObj [(''proposalId'', JStr (c_uuid r)), (''status'', JStr ''PENDING'')]),
      w\<lparr>proposals :=
          redis_set_ex (c_now r) (proposals w) (''proposal:'' @ c_uuid r)
            \<lparr>proposal_id = c_uuid r, action = c_action r, payload = c_payload r,
             requestor = c_username r, approvals = [], status = ''PENDING'',
             createdAt = c_now r\<rparr>
            86400\<rparr>)"

subsection \<open>\<^verbatim>\<open>POST /proposals/:id/approve\<close>\<close>

text \<open>
  A vote request: the clock, the id of the URL, the two fields read from the body, and
  whether the call to the issuer agent, should this request make it, succeeds.
\<close>

record vote_req =
  v_now :: nat
  v_id :: string
  validatorId :: jsval
  signature :: jsval
  issuer_up :: bool

text \<open>
  The signed message, \<^verbatim>\<open>`${id}:${proposal.action}:${JSON.stringify(proposal.payload)}`\<close>;
  \<open>None\<close> when the action cannot be made a string and the template throws.
\<close>

definition message :: "string \<Rightarrow> proposal \<Rightarrow> string option" where
  "message i p =
     map_option (\<lambda>a. i @ '':'' @ a @ '':'' @ js_stringify (payload p)) (js_string (action p))"

definition revoke_body :: "jsval \<Rightarrow> json" where
  "revoke_body pl = JObj (put ''publish'' (JBool True) (spread pl))"

text \<open>
  The handler awaits three times. Between two awaits it runs alone; at an await other
  requests, of this process or of another replica, may run. Its three stretches:
  \<open>fetch\<close> is the \<^verbatim>\<open>GET\<close>; \<open>decide\<close> is everything up to the \<^verbatim>\<open>SET\<close>, the call to the
  issuer included; \<open>commit\<close> is the \<^verbatim>\<open>SET\<close> and the answer. An exception ends the
  request in the error handler, which answers 500.
\<close>

definition fetch :: "vote_req \<Rightarrow> gov_world \<Rightarrow> proposal option" where
  "fetch r w = redis_get (v_now r) (proposals w) (''proposal:'' @ v_id r)"

definition decide ::
  "env \<Rightarrow> vote_req \<Rightarrow> proposal option \<Rightarrow> gov_world \<Rightarrow> (response + proposal) \<times> gov_world" where
  "decide e r raw w =
     (case raw of
        None \<Rightarrow> (Inl (error_reply 404 ''Not Found''), w)
      | Some p \<Rightarrow>
          if status p \<noteq> ''PENDING'' then (Inl (error_reply 400 ''Finalized''), w)
          else if includes_js (approvals p) (validatorId r) then (Inl (error_reply 409 ''Voted''), w)
          else
            (case message (v_id r) p of
               None \<Rightarrow> (Inl (error_reply 500 ''Internal Error''), w)
             | Some m \<Rightarrow>
                 (case js_string (validatorId r) of
                    None \<Rightarrow> (Inl (error_reply 500 ''Internal Error''), w)
                  | Some name \<Rightarrow>
                      (case VALIDATORS e name of
                         None \<Rightarrow> (Inl (error_reply 500 ''Internal Error''), w)
                       | Some key \<Rightarrow>
                           (case crypto_verify e m key (signature r) of
                              None \<Rightarrow> (Inl (error_reply 500 ''Internal Error''), w)
                            | Some False \<Rightarrow> (Inl (error_reply 401 ''Bad Sig''), w)
                            | Some True \<Rightarrow>
                                (let p1 = p\<lparr>approvals := approvals p @ [pushed (validatorId r)]\<rparr> in
                                 if length (approvals p1) \<ge> THRESHOLD then
                                   if action p1 = Some (JStr ''REVOKE_CREDENTIAL'') then
                                     (let w1 = w\<lparr>issuer_calls :=
                                                   issuer_calls w @ [revoke_body (payload p1)]\<rparr> in
                                      if issuer_up r then (Inr (p1\<lparr>status := ''EXECUTED''\<rparr>), w1)
                                      else (Inl (error_reply 500 ''Internal Error''), w1))
                                   else (Inr (p1\<lparr>status := ''EXECUTED''\<rparr>), w)
                                 else (Inr p1, w)))))))"

definition commit :: "vote_req \<Rightarrow> proposal \<Rightarrow> gov_world \<Rightarrow> response \<times> gov_world" where
  "commit r p w =
     (Reply 200 (JObj [(''status'', JStr (status p))]),
      w\<lparr>proposals := redis_set (proposals w) (''proposal:'' @ v_id r) p\<rparr>)"

definition castVote :: "env \<Rightarrow> vote_req \<Rightarrow> gov_world \<Rightarrow> response \<times> gov_world" where
  "castVote e r w =
     (case decide e r (fetch r w) w of
        (Inl resp, w1) \<Rightarrow> (resp, w1)
      | (Inr p, w1) \<Rightarrow> commit r p w1)"

text \<open>
  A vote in flight, for runs in which several requests share the store: what the request
  holds between its awaits, and a schedule that names, step by step, the request that
  runs next.
\<close>

datatype vote_task =
    Fetch
  | Decide "proposal option"
  | Commit proposal
  | Done response

fun vote_step :: "env \<Rightarrow> vote_req \<Rightarrow> vote_task \<Rightarrow> gov_world \<Rightarrow> vote_task \<times> gov_world" where
  "vote_step e r Fetch w = (Decide (fetch r w), w)"
| "vote_step e r (Decide raw) w =
     (case decide e r raw w of
        (Inl resp, w1) \<Rightarrow> (Done resp, w1)
      | (Inr p, w1) \<Rightarrow> (Commit p, w1))"
| "vote_step e r (Commit p) w = (case commit r p w of (resp, w1) \<Rightarrow> (Done resp, w1))"
| "vote_step e r (Done resp) w = (Done resp, w)"

fun run ::
  "env \<Rightarrow> nat list \<Rightarrow> (vote_req \<times> vote_task) list \<Rightarrow> gov_world \<Rightarrow>
   (vote_req \<times> vote_task) list \<times> gov_world" where
  "run e [] ts w = (ts, w)"
| "run e (i # sched) ts w =
     (if i < length ts then
        (case vote_step e (fst (ts ! i)) (snd (ts ! i)) w of
           (t, w1) \<Rightarrow> run e sched (ts[i := (fst (ts ! i), t)]) w1)
      else run e sched ts w)"

text \<open>
  A vote that passes every check of the handler on the proposal \<open>p\<close> it fetched, the
  proposal with that vote pushed, and the world after the call to the issuer agent.
\<close>

definition accepted :: "env \<Rightarrow> vote_req \<Rightarrow> proposal \<Rightarrow> bool" where
  "accepted e r p =
     (status p = ''PENDING'' \<and> \<not> includes_js (approvals p) (validatorId r) \<and>
      (case message (v_id r) p of
         None \<Rightarrow> False
       | Some m \<Rightarrow>
           (case js_string (validatorId r) of
              None \<Rightarrow> False
            | Some name \<Rightarrow>
                (case VALIDATORS e name of
                   None \<Rightarrow> False
                 | Some key \<Rightarrow> crypto_verify e m key (signature r) = Some True))))"

definition voted :: "vote_req \<Rightarrow> proposal \<Rightarrow> proposal" where
  "voted r p = p\<lparr>approvals := approvals p @ [pushed (validatorId r)]\<rparr>"

definition called :: "proposal \<Rightarrow> gov_world \<Rightarrow> gov_world" where
  "called p w = w\<lparr>issuer_calls := issuer_calls w @ [revoke_body (payload p)]\<rparr>"

text \<open>The shape of \<^verbatim>\<open>crypto.randomUUID()\<close>: 36 characters, hexadecimal digits and hyphens.\<close>

definition uuid_shaped :: "string \<Rightarrow> bool" where
  "uuid_shaped s = (length s = 36 \<and> (\<forall>c \<in> set s. c \<in> set ''0123456789abcdef-''))"

section \<open>Transparency log service\<close>

text \<open>The entries of the Redis list \<^verbatim>\<open>audit:transparency_log\<close>, oldest first.\<close>

record log_entry =
  uuid :: string
  timestamp :: nat
  body :: json

text \<open>\<^verbatim>\<open>RPUSH\<close> appends in one step of the store and returns the new length.\<close>

definition rPush :: "'a list \<Rightarrow> 'a \<Rightarrow> nat \<times> 'a list" where
  "rPush l x = (length l + 1, l @ [x])"

text \<open>An own property of a parsed object; other values have no property of the names used here.\<close>

definition property :: "json \<Rightarrow> string \<Rightarrow> jsval" where
  "property v k = (case v of JObj kvs \<Rightarrow> map_of kvs k | _ \<Rightarrow> None)"

definition falsy :: "jsval \<Rightarrow> bool" where
  "falsy v = (case v of None \<Rightarrow> True | Some x \<Rightarrow> \<not> truthy x)"

record append_req =
  a_now :: nat
  a_uuid :: string
  a_body :: jsval

definition invalid_payload :: response where
  "invalid_payload = error_reply 400 ''Invalid payload structure''"

definition log_entries :: "append_req \<Rightarrow> log_entry list \<Rightarrow> response \<times> log_entry list" where
  "log_entries r l =
     (case a_body r of
        None \<Rightarrow> (invalid_payload, l)
      | Some pl \<Rightarrow>
          if \<not> truthy pl \<or> falsy (property pl ''spec'') then (invalid_payload, l)
          else
            (case rPush l \<lparr>uuid = a_uuid r, timestamp = a_now r, body = pl\<rparr> of
               (listLength, l1) \<Rightarrow>
                 (Reply 201
                    (JObj [(''uuid'', JStr (a_uuid r)), (''logIndex'', JNum (dec listLength)),
                           (''nodepix'', JStr ''mock-proof'')]),
                  l1)))"

text \<open>Reading the number back from the \<^verbatim>\<open>logIndex\<close> of a reply, as a client does.\<close>

definition undec :: "string \<Rightarrow> nat" where
  "undec s = foldl (\<lambda>a c. 10 * a + (of_char c - 48)) 0 s"

definition logIndex :: "response \<Rightarrow> nat option" where
  "logIndex resp =
     (case resp of
        Reply code (JObj kvs) \<Rightarrow>
          (case map_of kvs ''logIndex'' of Some (JNum s) \<Rightarrow> Some (undec s) | _ \<Rightarrow> None)
      | _ \<Rightarrow> None)"

fun appends :: "append_req list \<Rightarrow> log_entry list \<Rightarrow> response list \<times> log_entry list" where
  "appends [] l = ([], l)"
| "appends (r # rs) l =
     (case log_entries r l of
        (resp, l1) \<Rightarrow> (case appends rs l1 of (resps, l2) \<Rightarrow> (resp # resps, l2)))"

section \<open>Verification gateway\<close>

text \<open>The session object that \<^verbatim>\<open>POST /verify\<close> serialises under \<^verbatim>\<open>session:<exchange id>\<close>.\<close>

record session =
  s_timestamp :: nat
  s_status :: string
  s_requestor :: jsval

text \<open>
  Library calls of the gateway: the hex SHA-256 digest of a text, base64 of a text, and
  \<^verbatim>\<open>toISOString\<close> of the clock.
\<close>

record gw_env =
  sha256_hex :: "string \<Rightarrow> string"
  base64 :: "string \<Rightarrow> string"
  toISOString :: "nat \<Rightarrow> string"

text \<open>
  The gateway's keys in Redis, the bodies it has posted to \<^verbatim>\<open>/api/v1/log/entries\<close> of
  the log service, oldest first, whether or not a post arrived, and the list of the log
  service that \<open>TRILLIAN_LOG_URL\<close> points to.
\<close>

record gw_world =
  sessions :: "session redis"
  log_posts :: "json list"
  transparency_log :: "log_entry list"

text \<open>An object literal as \<^verbatim>\<open>JSON.stringify\<close> sends it: fields that are \<^verbatim>\<open>undefined\<close> are left out.\<close>

definition obj :: "(string \<times> jsval) list \<Rightarrow> json" where
  "obj kvs = JObj (concat (map (\<lambda>kv. case snd kv of None \<Rightarrow> [] | Some v \<Rightarrow> [(fst kv, v)]) kvs))"

subsection \<open>\<^verbatim>\<open>POST /verify\<close>\<close>

text \<open>
  The request once authentication, the role check and validation have let it through:
  the clock, the data of the agent's answer (\<open>None\<close> when \<^verbatim>\<open>axios.post\<close> throws) and
  \<^verbatim>\<open>req.user.id\<close>. Destructuring \<^verbatim>\<open>null\<close> throws, and so does the template of the key
  when the exchange id cannot be made a string.
\<close>

record verify_req =
  q_now :: nat
  agent_data :: jsval
  q_user_id :: jsval

definition internal_server_error :: response where
  "internal_server_error = error_reply 500 ''Internal Server Error''"

definition session_key :: "jsval \<Rightarrow> string option" where
  "session_key x = map_option (\<lambda>s. ''session:'' @ s) (js_string x)"

definition verify_route :: "verify_req \<Rightarrow> gw_world \<Rightarrow> response \<times> gw_world" where
  "verify_route r w =
     (case agent_data r of
        None \<Rightarrow> (internal_server_error, w)
      | Some JNull \<Rightarrow> (internal_server_error, w)
      | Some d \<Rightarrow>
          (case session_key (property d ''presentation_exchange_id'') of
             None \<Rightarrow> (internal_server_error, w)
           | Some k \<Rightarrow>
               (Reply 200
                  (obj [(''presentation_exchange_id'', property d ''presentation_exchange_id''),
                        (''request_url'', property d ''presentation_request'')]),
                w\<lparr>sessions :=
                    redis_set_ex (q_now r) (sessions w) k
                      \<lparr>s_timestamp = q_now r, s_status = ''REQUEST_SENT'',
                       s_requestor = q_user_id r\<rparr>
                      3600\<rparr>)))"

subsection \<open>\<^verbatim>\<open>POST /webhooks/topic/present_proof/\<close>\<close>

text \<open>
  A webhook delivery once the secret check has let it through: the clock, the fields of
  the body, and for the append this delivery may trigger whether the log service is
  reached, the clock and the \<^verbatim>\<open>randomUUID()\<close> there.
\<close>

record webhook_req =
  h_now :: nat
  h_body :: "(string \<times> json) list"
  log_up :: bool
  log_now :: nat
  log_uuid :: string

definition leafData :: "gw_env \<Rightarrow> nat \<Rightarrow> jsval \<Rightarrow> json \<Rightarrow> string" where
  "leafData g now exchangeId proofData =
     base64 g
       (stringify
          (obj [(''timestamp'', Some (JStr (toISOString g now))),
                (''exchangeId'', exchangeId),
                (''result'', Some (JStr ''VALID'')),
                (''hash'', Some (JStr (sha256_hex g (stringify proofData))))]))"

definition hashedrekord :: "string \<Rightarrow> json" where
  "hashedrekord leaf =
     JObj [(''kind'', JStr ''hashedrekord''),
           (''apiVersion'', JStr ''0.0.1''),
           (''spec'',
            JObj [(''signature'',
                   JObj [(''content'', JStr leaf),
                         (''publicKey'', JObj [(''content'', JStr ''base64_pub_key'')])])])]"

text \<open>
  The append is started and not awaited; a failure of the call is caught and printed.
  The post is made in any case; when it arrives, the model lets the log service handle
  it at once.
\<close>

definition handleSuccessfulVerification ::
  "gw_env \<Rightarrow> webhook_req \<Rightarrow> jsval \<Rightarrow> json \<Rightarrow> gw_world \<Rightarrow> gw_world" where
  "handleSuccessfulVerification g r exchangeId proofData w =
     (let post = hashedrekord (leafData g (h_now r) exchangeId proofData);
          w1 = w\<lparr>log_posts := log_posts w @ [post]\<rparr>
      in
        if log_up r then
          w1\<lparr>transparency_log :=
               snd (log_entries \<lparr>a_now = log_now r, a_uuid = log_uuid r, a_body = Some post\<rparr>
                      (transparency_log w))\<rparr>
        else w1)"

text \<open>
  The handler awaits the \<^verbatim>\<open>GET\<close> and, later, the \<^verbatim>\<open>SET\<close>; between the two, other
  requests may run. \<open>hook_fetch\<close> is the \<^verbatim>\<open>GET\<close>; \<open>hook_write\<close> is the handler from
  there on, with the copy that was fetched. A delivery whose state is not
  \<^verbatim>\<open>verified\<close> is answered without a look at the store.
\<close>

definition hook_fetch :: "webhook_req \<Rightarrow> gw_world \<Rightarrow> session option" where
  "hook_fetch r w =
     (case session_key (map_of (h_body r) ''presentation_exchange_id'') of
        None \<Rightarrow> None
      | Some k \<Rightarrow> redis_get (h_now r) (sessions w) k)"

definition hook_write ::
  "gw_env \<Rightarrow> webhook_req \<Rightarrow> session option \<Rightarrow> gw_world \<Rightarrow> response \<times> gw_world" where
  "hook_write g r sessionRaw w =
     (let state = map_of (h_body r) ''state'';
          presentation_exchange_id = map_of (h_body r) ''presentation_exchange_id'';
          verified = map_of (h_body r) ''verified''
      in
        if state = Some (JStr ''verified'') then
          (case session_key presentation_exchange_id of
             None \<Rightarrow> (internal_server_error, w)
           | Some k \<Rightarrow>
               (case sessionRaw of
                  None \<Rightarrow> (ReplyEmpty 200, w)
                | Some s \<Rightarrow>
                    if verified = Some (JStr ''true'') \<or> verified = Some (JBool True) then
                      (ReplyEmpty 200,
                       (handleSuccessfulVerification g r presentation_exchange_id
                          (JObj (h_body r)) w)
                       \<lparr>sessions :=
                          redis_set_ex (h_now r) (sessions w) k
                            (s\<lparr>s_status := ''VERIFIED_AND_LOGGED''\<rparr>) 3600\<rparr>)
                    else (ReplyEmpty 200, w)))
        else (ReplyEmpty 200, w))"

definition webhook :: "gw_env \<Rightarrow> webhook_req \<Rightarrow> gw_world \<Rightarrow> response \<times> gw_world" where
  "webhook g r w = hook_write g r (hook_fetch r w) w"

section \<open>A test deployment\<close>

text \<open>
  Four validators and a stand-in for Ed25519 in which the signature of a message under a
  key is the key, a slash and the message; a signature that is not a string throws, as
  \<^verbatim>\<open>Buffer.from\<close> does.
\<close>

definition test_sign :: "string \<Rightarrow> string option \<Rightarrow> jsval" where
  "test_sign key m = map_option (\<lambda>t. JStr (key @ ''/'' @ t)) m"

definition test_verify :: "string \<Rightarrow> string \<Rightarrow> jsval \<Rightarrow> bool option" where
  "test_verify m key s = (case s of Some (JStr t) \<Rightarrow> Some (t = key @ ''/'' @ m) | _ \<Rightarrow> None)"

definition test_env :: env where
  "test_env =
     \<lparr>VALIDATORS = [''validator_1'' \<mapsto> ''K1'', ''validator_2'' \<mapsto> ''K2'', ''validator_3'' \<mapsto> ''K3'',
                   ''validator_4'' \<mapsto> ''K4''],
      crypto_verify = test_verify\<rparr>"

definition idA :: string where
  "idA = ''11111111-1111-4111-8111-111111111111''"

definition idB :: string where
  "idB = ''22222222-2222-4222-8222-222222222222''"

definition test_proposal :: "string \<Rightarrow> string \<Rightarrow> json list \<Rightarrow> proposal" where
  "test_proposal i a vs =
     \<lparr>proposal_id = i, action = Some (JStr a), payload = Some (JObj [(''cred_rev_id'', JStr ''1'')]),
      requestor = Some (JStr ''admin''), approvals = vs, status = ''PENDING'', createdAt = 0\<rparr>"

definition test_world :: "string \<Rightarrow> json list \<Rightarrow> gov_world" where
  "test_world a vs =
     \<lparr>proposals = [''proposal:'' @ idA \<mapsto> \<lparr>val = test_proposal idA a vs, expires = Some 86400\<rparr>],
      issuer_calls = []\<rparr>"

definition test_vote :: "json \<Rightarrow> string \<Rightarrow> string \<Rightarrow> bool \<Rightarrow> vote_req" where
  "test_vote v key a up =
     \<lparr>v_now = 10, v_id = idA, validatorId = Some v,
      signature = test_sign key (message idA (test_proposal idA a [])), issuer_up = up\<rparr>"

definition executed_world :: gov_world where
  "executed_world =
     \<lparr>proposals =
        [''proposal:'' @ idA \<mapsto>
           \<lparr>val = (test_proposal idA ''REVOKE_CREDENTIAL''
                     [JStr ''validator_1'', JStr ''validator_2'', JStr ''validator_3''])
                   \<lparr>status := ''EXECUTED''\<rparr>,
            expires = None\<rparr>],
      issuer_calls = [JObj [(''cred_rev_id'', JStr ''1''), (''publish'', JBool True)]]\<rparr>"

text \<open>
  For the gateway: stand-ins for the digest, the encoding and the clock's text, one
  proof request answered by the agent with the exchange id \<^verbatim>\<open>X\<close>, and the webhook that
  reports it verified.
\<close>

definition test_sha256 :: "string \<Rightarrow> string" where
  "test_sha256 s = ''sha256('' @ s @ '')''"

definition test_base64 :: "string \<Rightarrow> string" where
  "test_base64 s = ''base64('' @ s @ '')''"

definition test_gw_env :: gw_env where
  "test_gw_env = \<lparr>sha256_hex = test_sha256, base64 = test_base64, toISOString = dec\<rparr>"

definition test_gw_world :: gw_world where
  "test_gw_world =
     snd (verify_route
            \<lparr>q_now = 0,
             agent_data = Some (JObj [(''presentation_exchange_id'', JStr ''X''),
                                      (''presentation_request'', JStr ''didcomm://X'')]),
             q_user_id = Some (JStr ''system'')\<rparr>
            \<lparr>sessions = Map.empty, log_posts = [], transparency_log = []\<rparr>)"

definition test_hook :: "nat \<Rightarrow> string \<Rightarrow> webhook_req" where
  "test_hook t u =
     \<lparr>h_now = t,
      h_body = [(''state'', JStr ''verified''), (''presentation_exchange_id'', JStr ''X''),
                (''verified'', JStr ''true'')],
      log_up = True, log_now = t, log_uuid = u\<rparr>"

definition test_append :: "nat \<Rightarrow> string \<Rightarrow> append_req" where
  "test_append t u = \<lparr>a_now = t, a_uuid = u, a_body = Some (hashedrekord ''leaf'')\<rparr>"

text \<open>
  A second request for proof that the agent answers with the exchange id \<^verbatim>\<open>X\<close> again.
\<close>

definition test_verify_again :: verify_req where
  "test_verify_again =
     \<lparr>q_now = 11,
      agent_data = Some (JObj [(''presentation_exchange_id'', JStr ''X''),
                               (''presentation_request'', JStr ''didcomm://X'')]),
      q_user_id = Some (JStr ''alice'')\<rparr>"

text \<open>
  The first proposal with its action written as a one-element array, and with another
  action and another payload; a second proposal, and a vote on it that carries a
  signature made for the first.
\<close>

definition array_action_world :: gov_world where
  "array_action_world =
     \<lparr>proposals =
        [''proposal:'' @ idA \<mapsto>
           \<lparr>val = (test_proposal idA ''REVOKE_CREDENTIAL'' [])
                   \<lparr>action := Some (JArr [JStr ''REVOKE_CREDENTIAL''])\<rparr>,
            expires = Some 86400\<rparr>],
      issuer_calls = []\<rparr>"

definition tampered_world :: "jsval \<Rightarrow> jsval \<Rightarrow> gov_world" where
  "tampered_world a pl =
     \<lparr>proposals =
        [''proposal:'' @ idA \<mapsto>
           \<lparr>val = (test_proposal idA ''REVOKE_CREDENTIAL'' [])\<lparr>action := a, payload := pl\<rparr>,
            expires = Some 86400\<rparr>],
      issuer_calls = []\<rparr>"

definition world_B :: gov_world where
  "world_B =
     \<lparr>proposals =
        [''proposal:'' @ idB \<mapsto>
           \<lparr>val = test_proposal idB ''REVOKE_CREDENTIAL'' [], expires = Some 86400\<rparr>],
      issuer_calls = []\<rparr>"

definition replayed_vote :: vote_req where
  "replayed_vote =
     \<lparr>v_now = 10, v_id = idB, validatorId = Some (JStr ''validator_1''),
      signature = test_sign ''K1'' (message idA (test_proposal idA ''REVOKE_CREDENTIAL'' [])),
      issuer_up = True\<rparr>"

section \<open>The signed message can be read in one way only\<close>

text \<open>
  Read from its end, the text of a value that follows a comma, a colon or an opening
  bracket determines the value and what stands before it. So the payload, then the
  text of the action, then the id can be read off the message.
\<close>

lemma hex_digit_inj: "a < 16 \<Longrightarrow> b < 16 \<Longrightarrow> hex_digit a = hex_digit b \<Longrightarrow> a = b"
proof -
  assume a: "a < 16" and b: "b < 16" and eq: "hex_digit a = hex_digit b"
  have d: "distinct ''0123456789abcdef''" by simp
  from a b have "a < length ''0123456789abcdef''" "b < length ''0123456789abcdef''" by simp_all
  with d eq show "a = b" unfolding hex_digit_def by (simp only: nth_eq_iff_index_eq)
qed

lemma of_char_split: "(of_char c :: nat) div 16 = (of_char c' :: nat) div 16 \<Longrightarrow>
  (of_char c :: nat) mod 16 = (of_char c' :: nat) mod 16 \<Longrightarrow> c = c'"
proof -
  assume a: "(of_char c :: nat) div 16 = (of_char c' :: nat) div 16"
    and b: "(of_char c :: nat) mod 16 = (of_char c' :: nat) mod 16"
  have "(of_char c :: nat) = 16 * (of_char c div 16) + of_char c mod 16" by simp
  also have "\<dots> = 16 * (of_char c' div 16) + of_char c' mod 16" using a b by simp
  also have "\<dots> = (of_char c' :: nat)" by simp
  finally show "c = c'" by simp
qed

lemma hex_pair_inj:
  assumes "hex_digit ((of_char c :: nat) div 16) = hex_digit ((of_char c' :: nat) div 16)"
    and "hex_digit ((of_char c :: nat) mod 16) = hex_digit ((of_char c' :: nat) mod 16)"
  shows "c = c'"
proof -
  have lt: "(of_char d :: nat) div 16 < 16" for d :: char
  proof -
    have "(of_char d :: nat) < 256" by simp
    then show ?thesis by arith
  qed
  have md: "(of_char d :: nat) mod 16 < 16" for d :: char by simp
  from hex_digit_inj [OF lt lt assms(1)] hex_digit_inj [OF md md assms(2)]
  show ?thesis by (rule of_char_split)
qed

lemma escape_char_inj:
  assumes "escape_char c @ x = escape_char c' @ x'"
  shows "c = c' \<and> x = x'"
  using assms unfolding escape_char_def
  by (auto split: if_splits dest: hex_pair_inj)

lemma escape_char_hd: "escape_char c \<noteq> [] \<and> hd (escape_char c) \<noteq> CHR 0x22"
  by (simp add: escape_char_def)

lemma body_inj:
  "concat (map escape_char s) @ CHR 0x22 # r = concat (map escape_char s') @ CHR 0x22 # r' \<Longrightarrow>
   s = s' \<and> r = r'"
proof (induction s arbitrary: s')
  case Nil
  show ?case
  proof (cases s')
    case Nil
    with Nil.prems show ?thesis by simp
  next
    case (Cons c' t')
    from escape_char_hd [of c'] obtain h t where "escape_char c' = h # t" "h \<noteq> CHR 0x22"
      by (cases "escape_char c'") auto
    with Nil.prems Cons show ?thesis by simp
  qed
next
  case (Cons c t)
  show ?case
  proof (cases s')
    case Nil
    from escape_char_hd [of c] obtain h u where "escape_char c = h # u" "h \<noteq> CHR 0x22"
      by (cases "escape_char c") auto
    with Cons.prems Nil show ?thesis by simp
  next
    case (Cons c' t')
    with Cons.prems have
      "escape_char c @ (concat (map escape_char t) @ CHR 0x22 # r) =
       escape_char c' @ (concat (map escape_char t') @ CHR 0x22 # r')" by simp
    then have "c = c'" and "concat (map escape_char t) @ CHR 0x22 # r =
       concat (map escape_char t') @ CHR 0x22 # r'"
      using escape_char_inj by blast+
    with Cons.IH [of t'] Cons show ?thesis by simp
  qed
qed

lemma quote_inj: "quote s @ r = quote s' @ r' \<Longrightarrow> s = s' \<and> r = r'"
  using body_inj [of s r s' r'] by (simp add: quote_def)


lemma esc_inj: "concat (map escape_char s) = concat (map escape_char s') \<Longrightarrow> s = s'"
  using body_inj [of s "[]" s' "[]"] by simp

lemma quote_in_escape: "CHR 0x22 \<in> set (escape_char c) \<Longrightarrow> escape_char c = [CHR 0x5C, CHR 0x22]"
proof -
  assume q: "CHR 0x22 \<in> set (escape_char c)"
  have h: "hex_digit n \<noteq> CHR 0x22" if "n < 16" for n
  proof -
    from that have "hex_digit n \<in> set ''0123456789abcdef''"
      unfolding hex_digit_def by (intro nth_mem) simp
    then show ?thesis by auto
  qed
  have d: "(of_char c :: nat) div 16 < 16"
  proof -
    have "(of_char c :: nat) < 256" by simp
    then show ?thesis by arith
  qed
  have m: "(of_char c :: nat) mod 16 < 16" by simp
  from q h [OF d] h [OF m] show ?thesis
    by (simp add: escape_char_def split: if_splits)
qed

lemma quote_after_backslash:
  "concat (map escape_char s) = z @ CHR 0x22 # y \<Longrightarrow> z \<noteq> [] \<and> last z = CHR 0x5C"
proof (induction s arbitrary: z)
  case Nil
  then show ?case by simp
next
  case (Cons c t)
  from Cons.prems have "escape_char c @ concat (map escape_char t) = z @ CHR 0x22 # y" by simp
  then obtain u where
    "(escape_char c = z @ u \<and> u @ concat (map escape_char t) = CHR 0x22 # y) \<or>
     (escape_char c @ u = z \<and> concat (map escape_char t) = u @ CHR 0x22 # y)"
    by (auto simp add: append_eq_append_conv2)
  then show ?case
  proof
    assume a: "escape_char c = z @ u \<and> u @ concat (map escape_char t) = CHR 0x22 # y"
    show ?thesis
    proof (cases u)
      case Nil
      with a have "concat (map escape_char t) = [] @ CHR 0x22 # y" by simp
      from Cons.IH [OF this] show ?thesis by simp
    next
      case (Cons h u')
      with a have hq: "h = CHR 0x22" and e: "escape_char c = z @ CHR 0x22 # u'" by simp_all
      then have "CHR 0x22 \<in> set (escape_char c)" by simp
      then have "escape_char c = [CHR 0x5C, CHR 0x22]" by (rule quote_in_escape)
      with e have "z @ CHR 0x22 # u' = [CHR 0x5C, CHR 0x22]" by simp
      then show ?thesis by (auto simp add: append_eq_Cons_conv)
    qed
  next
    assume b: "escape_char c @ u = z \<and> concat (map escape_char t) = u @ CHR 0x22 # y"
    with Cons.IH [of u] have "u \<noteq> [] \<and> last u = CHR 0x5C" by simp
    with b show ?thesis by auto
  qed
qed

lemma before_backslash: "before l \<Longrightarrow> l \<noteq> [] \<Longrightarrow> last l \<noteq> CHR 0x5C"
  by (auto simp add: before_def)

lemma quote_left:
  assumes "before l" and "before l'" and "l @ quote s = l' @ quote s'"
  shows "s = s' \<and> l = l'"
proof -
  let ?b = "concat (map escape_char s)" and ?b' = "concat (map escape_char s')"
  from assms(3) have "(l @ CHR 0x22 # ?b) @ [CHR 0x22] = (l' @ CHR 0x22 # ?b') @ [CHR 0x22]"
    by (simp add: quote_def)
  then have eq: "l @ CHR 0x22 # ?b = l' @ CHR 0x22 # ?b'" by (simp only: append_same_eq)
  then obtain u where
    "(l = l' @ u \<and> u @ CHR 0x22 # ?b = CHR 0x22 # ?b') \<or>
     (l @ u = l' \<and> CHR 0x22 # ?b = u @ CHR 0x22 # ?b')"
    by (auto simp add: append_eq_append_conv2)
  then show ?thesis
  proof
    assume a: "l = l' @ u \<and> u @ CHR 0x22 # ?b = CHR 0x22 # ?b'"
    show ?thesis
    proof (cases u)
      case Nil
      with a esc_inj [of s s'] show ?thesis by simp
    next
      case (Cons h u')
      with a have "?b' = u' @ CHR 0x22 # ?b" by simp
      from quote_after_backslash [OF this] have "u' \<noteq> [] \<and> last u' = CHR 0x5C" .
      with a Cons have "l \<noteq> []" "last l = CHR 0x5C" by simp_all
      with before_backslash [OF assms(1)] show ?thesis by simp
    qed
  next
    assume b: "l @ u = l' \<and> CHR 0x22 # ?b = u @ CHR 0x22 # ?b'"
    show ?thesis
    proof (cases u)
      case Nil
      with b esc_inj [of s s'] show ?thesis by simp
    next
      case (Cons h u')
      with b have "?b = u' @ CHR 0x22 # ?b'" by simp
      from quote_after_backslash [OF this] have "u' \<noteq> [] \<and> last u' = CHR 0x5C" .
      with b Cons have "l' \<noteq> []" "last l' = CHR 0x5C" by auto
      with before_backslash [OF assms(2)] show ?thesis by simp
    qed
  qed
qed


lemma join_comma_snoc:
  "join_comma (as @ [a]) = (if as = [] then [] else join_comma as @ '','') @ a"
  by (induction as rule: join_comma.induct) simp_all

lemma takeWhile_all_then_none:
  "\<forall>c \<in> set xs. P c \<Longrightarrow> takeWhile P ys = [] \<Longrightarrow> takeWhile P (xs @ ys) = xs"
  by (induction xs) auto

lemma unbefore:
  "set s \<inter> set '',:[{'' = {} \<Longrightarrow> before l \<Longrightarrow>
   takeWhile (\<lambda>c. c \<notin> set '',:[{'') (rev s @ rev l) = rev s"
proof -
  assume s: "set s \<inter> set '',:[{'' = {}" and l: "before l"
  have "takeWhile (\<lambda>c. c \<notin> set '',:[{'') (rev l) = []"
  proof (cases "l = []")
    case True
    then show ?thesis by simp
  next
    case False
    with l have "last l \<in> set '',:[{''" by (simp only: before_def) simp
    with False have "\<not> (hd (rev l) \<notin> set '',:[{'')" by (simp only: hd_rev) simp
    then show ?thesis by (simp only: takeWhile_eq_Nil_iff) simp
  qed
  moreover from s have "\<forall>c \<in> set (rev s). c \<notin> set '',:[{''" by auto
  ultimately show ?thesis by (intro takeWhile_all_then_none)
qed

lemma num_left:
  assumes "wf_num s" and "wf_num s'" and "before l" and "before l'" and "l @ s = l' @ s'"
  shows "s = s' \<and> l = l'"
proof -
  have d: "set ''-+.e0123456789'' \<inter> set '',:[{'' = {}" by simp
  from assms(1,2) have "set s \<subseteq> set ''-+.e0123456789''" "set s' \<subseteq> set ''-+.e0123456789''"
    by (simp_all only: wf_num_def)
  with d have "set s \<inter> set '',:[{'' = {}" "set s' \<inter> set '',:[{'' = {}"
    by blast+
  with assms(3,4) have "takeWhile (\<lambda>c. c \<notin> set '',:[{'') (rev s @ rev l) = rev s"
    "takeWhile (\<lambda>c. c \<notin> set '',:[{'') (rev s' @ rev l') = rev s'"
    by (simp_all only: unbefore)
  moreover from assms(5) have "rev s @ rev l = rev s' @ rev l'"
    by (metis rev_append)
  ultimately have "rev s = rev s'" by simp
  then have "s = s'" by simp
  with assms(5) show ?thesis by simp
qed

lemma closing_digit: "c \<in> set ''0123456789'' \<Longrightarrow> closing c = 3 \<and> c \<notin> set '',:[{''"
  by (auto simp add: closing_def)

lemma closes:
  "stringify v = t @ [c] \<Longrightarrow> closing c = kind v \<Longrightarrow> c \<notin> set '',:[{'' \<Longrightarrow>
   \<exists>t c. stringify v = t @ [c] \<and> closing c = kind v \<and> c \<notin> set '',:[{''"
  by blast

lemma stringify_closing:
  "well_formed v \<Longrightarrow> \<exists>t c. stringify v = t @ [c] \<and> closing c = kind v \<and> c \<notin> set '',:[{''"
proof (cases v)
  case JNull
  show ?thesis
    by (rule closes [of v "''nul''" "CHR ''l''"]) (simp_all add: JNull closing_def)
next
  case (JBool b)
  show ?thesis
    by (rule closes [of v "if b then ''tru'' else ''fals''" "CHR ''e''"])
      (simp_all add: JBool closing_def)
next
  case (JNum s)
  assume "well_formed v"
  with JNum have "s \<noteq> []" and h: "last s \<in> set ''0123456789''"
    by (simp_all add: wf_num_def)
  then have "s = butlast s @ [last s]" by simp
  then have e: "stringify v = butlast s @ [last s]" using JNum by simp
  have k: "kind v = 3" using JNum by simp
  from closing_digit [OF h] k show ?thesis
    by (intro closes [OF e]) simp_all
next
  case (JStr s)
  show ?thesis
    by (rule closes [of v "CHR 0x22 # concat (map escape_char s)" "CHR 0x22"])
      (simp_all add: JStr closing_def quote_def)
next
  case (JArr xs)
  show ?thesis
    by (rule closes [of v "''['' @ join_comma (map stringify xs)" "CHR '']''"])
      (simp_all add: JArr closing_def)
next
  case (JObj kvs)
  show ?thesis
    by (rule closes [of v
          "''{'' @ join_comma (map (\<lambda>kv. quote (fst kv) @ '':'' @ stringify (snd kv)) kvs)"
          "CHR ''}''"])
      (simp_all add: JObj closing_def)
qed

lemma same_kind:
  assumes "well_formed v" and "well_formed v'" and "l @ stringify v = l' @ stringify v'"
  shows "kind v = kind v'"
proof -
  from stringify_closing [OF assms(1)] obtain t c
    where a: "stringify v = t @ [c]" "closing c = kind v" by blast
  from stringify_closing [OF assms(2)] obtain t' c'
    where b: "stringify v' = t' @ [c']" "closing c' = kind v'" by blast
  from a b assms(3) have "(l @ t) @ [c] = (l' @ t') @ [c']" by simp
  then have "c = c'" by (simp only: append1_eq_conv)
  with a b show ?thesis by simp
qed

lemma kind_cases:
  "kind v = 0 \<Longrightarrow> v = JNull"
  "kind v = 1 \<Longrightarrow> \<exists>b. v = JBool b"
  "kind v = 3 \<Longrightarrow> \<exists>s. v = JNum s"
  "kind v = 4 \<Longrightarrow> \<exists>s. v = JStr s"
  "kind v = 5 \<Longrightarrow> \<exists>xs. v = JArr xs"
  "kind v = 6 \<Longrightarrow> \<exists>kvs. v = JObj kvs"
  by (cases v; simp)+


lemma join_left:
  assumes op: "op = CHR ''['' \<or> op = CHR ''{''"
    and eq: "l @ op # join_comma (map f xs) = l' @ op # join_comma (map f xs')"
    and el: "\<And>x x' a a'. x \<in> set xs \<Longrightarrow> x' \<in> set xs' \<Longrightarrow> before a \<Longrightarrow> before a' \<Longrightarrow>
               a @ f x = a' @ f x' \<Longrightarrow> x = x' \<and> a = a'"
    and t1: "\<And>x. x \<in> set xs \<Longrightarrow> \<exists>t c. f x = t @ [c] \<and> c \<notin> set '',:[{''"
    and t2: "\<And>x. x \<in> set xs' \<Longrightarrow> \<exists>t c. f x = t @ [c] \<and> c \<notin> set '',:[{''"
  shows "xs = xs' \<and> l = l'"
  using eq el t1 t2
proof (induction xs arbitrary: xs' rule: rev_induct)
  case Nil
  show ?case
  proof (cases xs' rule: rev_cases)
    case Nil
    with Nil.prems(1) show ?thesis by simp
  next
    case (snoc ys' x')
    from Nil.prems(4) [of x'] snoc obtain t c where c: "f x' = t @ [c]" "c \<notin> set '',:[{''" by auto
    from Nil.prems(1) snoc c(1) have
      "l @ [op] = (l' @ op # (if ys' = [] then [] else join_comma (map f ys') @ '','') @ t) @ [c]"
      by (simp add: join_comma_snoc)
    then have "op = c" by (simp only: append1_eq_conv)
    with c(2) op show ?thesis by auto
  qed
next
  case (snoc x ys)
  show ?case
  proof (cases xs' rule: rev_cases)
    case Nil
    from snoc.prems(3) [of x] obtain t c where c: "f x = t @ [c]" "c \<notin> set '',:[{''" by auto
    from snoc.prems(1) Nil c(1) have
      "(l @ op # (if ys = [] then [] else join_comma (map f ys) @ '','') @ t) @ [c] = l' @ [op]"
      by (simp add: join_comma_snoc)
    then have "c = op" by (simp only: append1_eq_conv)
    with c(2) op show ?thesis by auto
  next
    case (snoc ys' x')
    define pre where "pre = l @ op # (if ys = [] then [] else join_comma (map f ys) @ '','')"
    define pre' where "pre' = l' @ op # (if ys' = [] then [] else join_comma (map f ys') @ '','')"
    from snoc.prems(1) snoc have e: "pre @ f x = pre' @ f x'"
      by (simp add: join_comma_snoc pre_def pre'_def)
    have b: "before pre" "before pre'" using op by (auto simp add: before_def pre_def pre'_def)
    have "x \<in> set (ys @ [x])" "x' \<in> set xs'" using snoc by simp_all
    from snoc.prems(2) [OF this b e] have x: "x = x'" and pre: "pre = pre'" by simp_all
    show ?thesis
    proof (cases "ys = []")
      case True
      have "ys' = []"
      proof (rule ccontr)
        assume "ys' \<noteq> []"
        with True pre have "l @ [op] = (l' @ op # join_comma (map f ys')) @ '',''"
          by (simp add: pre_def pre'_def)
        then have "op = CHR '',''" by (simp only: append1_eq_conv)
        with op show False by auto
      qed
      with True pre x snoc show ?thesis by (simp add: pre_def pre'_def)
    next
      case False
      have ys': "ys' \<noteq> []"
      proof
        assume "ys' = []"
        with False pre have "(l @ op # join_comma (map f ys)) @ '','' = l' @ [op]"
          by (simp add: pre_def pre'_def)
        then have "CHR '','' = op" by (simp only: append1_eq_conv)
        with op show False by auto
      qed
      with False pre have
        "(l @ op # join_comma (map f ys)) @ '','' = (l' @ op # join_comma (map f ys')) @ '',''"
        by (simp add: pre_def pre'_def)
      then have j: "l @ op # join_comma (map f ys) = l' @ op # join_comma (map f ys')"
        by (simp only: append_same_eq)
      have "ys = ys' \<and> l = l'"
      proof (rule snoc.IH [OF j])
        show "xa = xa' \<and> a = a'"
          if "xa \<in> set ys" "xa' \<in> set ys'" "before a" "before a'" "a @ f xa = a' @ f xa'"
          for xa xa' a a'
          using that snoc.prems(2) [of xa xa' a a'] snoc by simp
        show "\<exists>t c. f xa = t @ [c] \<and> c \<notin> set '',:[{''" if "xa \<in> set ys" for xa
          using that snoc.prems(3) [of xa] by simp
        show "\<exists>t c. f xa = t @ [c] \<and> c \<notin> set '',:[{''" if "xa \<in> set ys'" for xa
          using that snoc.prems(4) [of xa] snoc by simp
      qed
      with x snoc show ?thesis by simp
    qed
  qed
qed

lemma stringify_left:
  "well_formed v \<Longrightarrow> well_formed v' \<Longrightarrow> before l \<Longrightarrow> before l' \<Longrightarrow>
   l @ stringify v = l' @ stringify v' \<Longrightarrow> v = v' \<and> l = l'"
proof (induction v arbitrary: v' l l')
  case JNull
  from same_kind [OF JNull.prems(1,2,5)] have "v' = JNull" by (simp add: kind_cases)
  with JNull.prems(5) show ?case by simp
next
  case (JBool b)
  from same_kind [OF JBool.prems(1,2,5)] obtain b' where v': "v' = JBool b'"
    using kind_cases(2) [of v'] by auto
  have "b = b'"
  proof (rule ccontr)
    assume "b \<noteq> b'"
    with JBool.prems(5) v' have "l @ ''true'' = l' @ ''false'' \<or> l @ ''false'' = l' @ ''true''"
      by (cases b; cases b') simp_all
    then have "rev ''true'' @ rev l = rev ''false'' @ rev l' \<or>
               rev ''false'' @ rev l = rev ''true'' @ rev l'"
      by (metis rev_append)
    then show False by simp
  qed
  with JBool.prems(5) v' show ?case by simp
next
  case (JNum s)
  from same_kind [OF JNum.prems(1,2,5)] obtain s' where v': "v' = JNum s'"
    using kind_cases(3) [of v'] by auto
  with JNum.prems have "wf_num s" "wf_num s'" "l @ s = l' @ s'" by simp_all
  from num_left [OF this(1,2) JNum.prems(3,4) this(3)] v' show ?case by simp
next
  case (JStr s)
  from same_kind [OF JStr.prems(1,2,5)] obtain s' where v': "v' = JStr s'"
    using kind_cases(4) [of v'] by auto
  with JStr.prems(5) have "l @ quote s = l' @ quote s'" by simp
  from quote_left [OF JStr.prems(3,4) this] v' show ?case by simp
next
  case (JArr xs)
  from same_kind [OF JArr.prems(1,2,5)] obtain xs' where v': "v' = JArr xs'"
    using kind_cases(5) [of v'] by auto
  with JArr.prems(5) have
    "(l @ CHR ''['' # join_comma (map stringify xs)) @ '']'' =
     (l' @ CHR ''['' # join_comma (map stringify xs')) @ '']''"
    by simp
  then have eq: "l @ CHR ''['' # join_comma (map stringify xs) =
                 l' @ CHR ''['' # join_comma (map stringify xs')"
    by (simp only: append_same_eq)
  have "xs = xs' \<and> l = l'"
  proof (rule join_left [OF _ eq])
    show "CHR ''['' = CHR ''['' \<or> CHR ''['' = CHR ''{''" by simp
    show "x = x' \<and> a = a'"
      if "x \<in> set xs" "x' \<in> set xs'" "before a" "before a'" "a @ stringify x = a' @ stringify x'"
      for x x' a a'
    proof (rule JArr.IH [OF that(1) _ _ that(3,4,5)])
      from that(1) JArr.prems(1) show "well_formed x" by simp
      from that(2) JArr.prems(2) v' show "well_formed x'" by simp
    qed
    show "\<exists>t c. stringify x = t @ [c] \<and> c \<notin> set '',:[{''" if "x \<in> set xs" for x
      using that JArr.prems(1) stringify_closing [of x] by auto
    show "\<exists>t c. stringify x = t @ [c] \<and> c \<notin> set '',:[{''" if "x \<in> set xs'" for x
      using that JArr.prems(2) v' stringify_closing [of x] by auto
  qed
  with v' show ?case by simp
next
  case (JObj kvs)
  from same_kind [OF JObj.prems(1,2,5)] obtain kvs' where v': "v' = JObj kvs'"
    using kind_cases(6) [of v'] by auto
  let ?f = "\<lambda>kv. quote (fst kv) @ '':'' @ stringify (snd kv)"
  from v' JObj.prems(5) have
    "(l @ CHR ''{'' # join_comma (map ?f kvs)) @ ''}'' =
     (l' @ CHR ''{'' # join_comma (map ?f kvs')) @ ''}''"
    by simp
  then have eq: "l @ CHR ''{'' # join_comma (map ?f kvs) = l' @ CHR ''{'' # join_comma (map ?f kvs')"
    by (simp only: append_same_eq)
  have "kvs = kvs' \<and> l = l'"
  proof (rule join_left [OF _ eq])
    show "CHR ''{'' = CHR ''['' \<or> CHR ''{'' = CHR ''{''" by simp
    show "x = x' \<and> a = a'"
      if "x \<in> set kvs" "x' \<in> set kvs'" "before a" "before a'" "a @ ?f x = a' @ ?f x'"
      for x x' a a'
    proof -
      from that(5) have e: "(a @ quote (fst x) @ '':'') @ stringify (snd x) =
                            (a' @ quote (fst x') @ '':'') @ stringify (snd x')" by simp
      have b: "before (a @ quote (fst x) @ '':'')" "before (a' @ quote (fst x') @ '':'')"
        by (simp_all add: before_def)
      have "snd x \<in> Basic_BNFs.snds x" by (cases x) simp
      moreover from that(1) JObj.prems(1) have "well_formed (snd x)" by simp
      moreover from that(2) JObj.prems(2) v' have "well_formed (snd x')" by simp
      ultimately have v: "snd x = snd x'"
        and k: "a @ quote (fst x) @ '':'' = a' @ quote (fst x') @ '':''"
        using JObj.IH [OF that(1) _ _ _ b e] by blast+
      from k have "(a @ quote (fst x)) @ '':'' = (a' @ quote (fst x')) @ '':''" by simp
      then have "a @ quote (fst x) = a' @ quote (fst x')" by (simp only: append_same_eq)
      from quote_left [OF that(3,4) this] v show ?thesis by (simp add: prod_eq_iff)
    qed
    show "\<exists>t c. ?f x = t @ [c] \<and> c \<notin> set '',:[{''" if "x \<in> set kvs" for x
    proof -
      from that JObj.prems(1) have "well_formed (snd x)" by simp
      from stringify_closing [OF this] obtain t c
        where "stringify (snd x) = t @ [c]" "c \<notin> set '',:[{''" by blast
      then have "?f x = (quote (fst x) @ '':'' @ t) @ [c]" by simp
      with \<open>c \<notin> set '',:[{''\<close> show ?thesis by blast
    qed
    show "\<exists>t c. ?f x = t @ [c] \<and> c \<notin> set '',:[{''" if "x \<in> set kvs'" for x
    proof -
      from that JObj.prems(2) v' have "well_formed (snd x)" by simp
      from stringify_closing [OF this] obtain t c
        where "stringify (snd x) = t @ [c]" "c \<notin> set '',:[{''" by blast
      then have "?f x = (quote (fst x) @ '':'' @ t) @ [c]" by simp
      with \<open>c \<notin> set '',:[{''\<close> show ?thesis by blast
    qed
  qed
  with v' show ?case by simp
qed

lemma message_inj:
  assumes "uuid_shaped a" and "uuid_shaped b"
    and "wf_payload (payload p)" and "wf_payload (payload q)"
    and "message a p = Some m" and "message b q = Some m"
  shows "a = b \<and> js_string (action p) = js_string (action q) \<and> payload p = payload q"
proof -
  from assms(5) obtain x where x: "js_string (action p) = Some x"
    and mx: "m = a @ '':'' @ x @ '':'' @ js_stringify (payload p)"
    by (auto simp add: message_def)
  from assms(6) obtain y where y: "js_string (action q) = Some y"
    and my: "m = b @ '':'' @ y @ '':'' @ js_stringify (payload q)"
    by (auto simp add: message_def)
  from assms(1,2) have "length a = length b" by (simp add: uuid_shaped_def)
  with mx my have ab: "a = b"
    and e: "(x @ '':'') @ js_stringify (payload p) = (y @ '':'') @ js_stringify (payload q)"
    by simp_all
  have b: "before (x @ '':'')" "before (y @ '':'')" by (simp_all add: before_def)
  have u: "l @ ''undefined'' \<noteq> l' @ stringify v" if "well_formed v" for l l' v
  proof
    assume eq: "l @ ''undefined'' = l' @ stringify v"
    from stringify_closing [OF that] obtain t c
      where c: "stringify v = t @ [c]" "closing c = kind v" by blast
    have "l @ ''undefined'' = (l @ ''undefine'') @ [CHR ''d'']" by simp
    moreover from eq c(1) have "l @ ''undefined'' = (l' @ t) @ [c]" by (simp only: append_assoc)
    ultimately have "(l @ ''undefine'') @ [CHR ''d''] = (l' @ t) @ [c]" by (rule trans [OF sym])
    then have "c = CHR ''d''" by (simp only: append1_eq_conv)
    with c(2) have "kind v = 3" by (simp add: closing_def)
    then obtain s where "v = JNum s" using kind_cases(3) by blast
    with that c(1) \<open>c = CHR ''d''\<close> have "last s = CHR ''d''" "last s \<in> set ''0123456789''"
      by (simp_all add: wf_num_def)
    then show False by simp
  qed
  have "x = y \<and> payload p = payload q"
  proof (cases "payload p")
    case None
    show ?thesis
    proof (cases "payload q")
      case None
      with \<open>payload p = None\<close> e show ?thesis by (simp add: js_stringify_def)
    next
      case (Some v')
      with assms(4) have "well_formed v'" by (simp add: wf_payload_def)
      from u [OF this, of "x @ '':''" "y @ '':''"] e None Some show ?thesis
        by (simp add: js_stringify_def)
    qed
  next
    case (Some v)
    with assms(3) have wv: "well_formed v" by (simp add: wf_payload_def)
    show ?thesis
    proof (cases "payload q")
      case None
      from u [OF wv, of "y @ '':''" "x @ '':''"] e None Some show ?thesis
        by (simp add: js_stringify_def)
    next
      case (Some v')
      with assms(4) have wv': "well_formed v'" by (simp add: wf_payload_def)
      from e Some \<open>payload p = Some v\<close>
      have "(x @ '':'') @ stringify v = (y @ '':'') @ stringify v'"
        by (simp add: js_stringify_def)
      from stringify_left [OF wv wv' b this] Some \<open>payload p = Some v\<close> show ?thesis by simp
    qed
  qed
  with ab x y show ?thesis by simp
qed

section \<open>Properties of the vote handler\<close>

lemmas test_defs = test_sign_def test_verify_def test_env_def idA_def test_proposal_def
  test_world_def test_vote_def

lemmas vote_defs = castVote_def decide_def fetch_def commit_def redis_get_def redis_set_def
  includes_js_def js_string_def js_stringify_def message_def THRESHOLD_def pushed_def
  error_reply_def revoke_body_def

lemma castVote_not_found:
  "fetch r w = None \<Longrightarrow> castVote e r w = (error_reply 404 ''Not Found'', w)"
  by (simp add: castVote_def decide_def)

lemma castVote_finalized:
  "fetch r w = Some p \<Longrightarrow> status p \<noteq> ''PENDING'' \<Longrightarrow>
   castVote e r w = (error_reply 400 ''Finalized'', w)"
  by (simp add: castVote_def decide_def)

lemma castVote_voted:
  "fetch r w = Some p \<Longrightarrow> status p = ''PENDING'' \<Longrightarrow>
   includes_js (approvals p) (validatorId r) \<Longrightarrow>
   castVote e r w = (error_reply 409 ''Voted'', w)"
  by (simp add: castVote_def decide_def)

lemma decide_accepted:
  "accepted e r p \<Longrightarrow>
   decide e r (Some p) w =
     (if length (approvals p) + 1 < THRESHOLD then (Inr (voted r p), w)
      else if action p = Some (JStr ''REVOKE_CREDENTIAL'') then
        if issuer_up r then (Inr ((voted r p)\<lparr>status := ''EXECUTED''\<rparr>), called p w)
        else (Inl (error_reply 500 ''Internal Error''), called p w)
      else (Inr ((voted r p)\<lparr>status := ''EXECUTED''\<rparr>), w))"
  by (auto simp add: decide_def accepted_def voted_def called_def Let_def
      split: option.splits bool.splits)

lemma decide_not_accepted:
  "\<not> accepted e r p \<Longrightarrow>
   snd (decide e r (Some p) w) = w \<and>
   fst (decide e r (Some p) w) \<in>
     {Inl (error_reply 400 ''Finalized''), Inl (error_reply 409 ''Voted''),
      Inl (error_reply 401 ''Bad Sig''), Inl (error_reply 500 ''Internal Error'')}"
  by (auto simp add: decide_def accepted_def Let_def split: option.splits bool.splits)

lemma castVote_accepted:
  "fetch r w = Some p \<Longrightarrow> accepted e r p \<Longrightarrow>
   castVote e r w =
     (if length (approvals p) + 1 < THRESHOLD then commit r (voted r p) w
      else if action p = Some (JStr ''REVOKE_CREDENTIAL'') then
        if issuer_up r then commit r ((voted r p)\<lparr>status := ''EXECUTED''\<rparr>) (called p w)
        else (error_reply 500 ''Internal Error'', called p w)
      else commit r ((voted r p)\<lparr>status := ''EXECUTED''\<rparr>) w)"
  by (simp add: castVote_def decide_accepted)

lemma castVote_not_accepted:
  assumes "fetch r w = Some p" and "\<not> accepted e r p"
  shows "snd (castVote e r w) = w \<and>
         fst (castVote e r w) \<in>
           {error_reply 400 ''Finalized'', error_reply 409 ''Voted'',
            error_reply 401 ''Bad Sig'', error_reply 500 ''Internal Error''}"
proof -
  obtain d w1 where d: "decide e r (Some p) w = (d, w1)" by (cases "decide e r (Some p) w")
  from decide_not_accepted [OF assms(2), of w] d
  have "w1 = w" and "d \<in> {Inl (error_reply 400 ''Finalized''), Inl (error_reply 409 ''Voted''),
      Inl (error_reply 401 ''Bad Sig''), Inl (error_reply 500 ''Internal Error'')}"
    by simp_all
  with d assms(1) show ?thesis by (auto simp add: castVote_def)
qed

lemma not_accepted_not_200:
  "fetch r w = Some p \<Longrightarrow> \<not> accepted e r p \<Longrightarrow> fst (castVote e r w) \<noteq> Reply 200 b"
  using castVote_not_accepted [of r w p e] by (auto simp add: error_reply_def)

lemma proposals_commit:
  "proposals (snd (commit r p w)) =
   (proposals w)(''proposal:'' @ v_id r \<mapsto> \<lparr>val = p, expires = None\<rparr>)"
  by (simp add: commit_def redis_set_def)

lemma proposals_called [simp]: "proposals (called p w) = proposals w"
  by (simp add: called_def)

lemma issuer_calls_commit [simp]: "issuer_calls (snd (commit r p w)) = issuer_calls w"
  by (simp add: commit_def)

lemma fst_commit [simp]: "fst (commit r p w) = Reply 200 (JObj [(''status'', JStr (status p))])"
  by (simp add: commit_def)

text \<open>A vote writes, if at all, the key of the proposal it names.\<close>

lemma castVote_other_key:
  "k \<noteq> ''proposal:'' @ v_id r \<Longrightarrow> proposals (snd (castVote e r w)) k = proposals w k"
proof (cases "fetch r w")
  case None
  then show ?thesis by (simp add: castVote_not_found)
next
  case (Some p)
  assume k: "k \<noteq> ''proposal:'' @ v_id r"
  show ?thesis
  proof (cases "accepted e r p")
    case True
    from castVote_accepted [OF Some True] k show ?thesis
      by (simp add: proposals_commit)
  next
    case False
    with Some show ?thesis by (simp add: castVote_not_accepted)
  qed
qed

text \<open>What a vote answered 200 has written.\<close>

lemma castVote_200:
  assumes "fst (castVote e r w) = Reply 200 b"
  shows "\<exists>p. fetch r w = Some p \<and> accepted e r p \<and>
             proposals (snd (castVote e r w)) =
               (proposals w)(''proposal:'' @ v_id r \<mapsto>
                  \<lparr>val = p\<lparr>approvals := approvals p @ [pushed (validatorId r)],
                           status := if length (approvals p) + 1 < THRESHOLD
                                     then ''PENDING'' else ''EXECUTED''\<rparr>,
                   expires = None\<rparr>)"
proof (cases "fetch r w")
  case None
  with assms show ?thesis by (simp add: castVote_not_found error_reply_def)
next
  case (Some p)
  show ?thesis
  proof (cases "accepted e r p")
    case False
    with Some assms show ?thesis using not_accepted_not_200 by blast
  next
    case True
    then have "status p = ''PENDING''" by (simp add: accepted_def)
    then have v: "(voted r p)\<lparr>status := ''PENDING''\<rparr> = voted r p" by (simp add: voted_def)
    from castVote_accepted [OF Some True] assms v
    have "proposals (snd (castVote e r w)) =
               (proposals w)(''proposal:'' @ v_id r \<mapsto>
                  \<lparr>val = (voted r p)\<lparr>status := if length (approvals p) + 1 < THRESHOLD
                                     then ''PENDING'' else ''EXECUTED''\<rparr>,
                   expires = None\<rparr>)"
      by (auto simp add: proposals_commit error_reply_def split: if_splits)
    with Some True show ?thesis by (simp add: voted_def)
  qed
qed

text \<open>
  C5, as stated, fails. A fourth vote fetches the proposal while it is pending; three
  votes then bring it to EXECUTED, with the issuer agent called; the fourth vote now
  writes back its copy, and the store holds the proposal PENDING with that vote alone.
  And a vote on a proposal whose time to live has run out is answered 404
  \<^verbatim>\<open>Not Found\<close>, not as finalized.
\<close>

theorem stale_vote_reopens:
  "run test_env [3, 0, 0, 0, 1, 1, 1, 2, 2, 2]
     [(test_vote (JStr ''validator_1'') ''K1'' ''REVOKE_CREDENTIAL'' True, Fetch),
      (test_vote (JStr ''validator_2'') ''K2'' ''REVOKE_CREDENTIAL'' True, Fetch),
      (test_vote (JStr ''validator_3'') ''K3'' ''REVOKE_CREDENTIAL'' True, Fetch),
      (test_vote (JStr ''validator_4'') ''K4'' ''REVOKE_CREDENTIAL'' True, Fetch)]
     (test_world ''REVOKE_CREDENTIAL'' []) =
   ([(test_vote (JStr ''validator_1'') ''K1'' ''REVOKE_CREDENTIAL'' True,
      Done (Reply 200 (JObj [(''status'', JStr ''PENDING'')]))),
     (test_vote (JStr ''validator_2'') ''K2'' ''REVOKE_CREDENTIAL'' True,
      Done (Reply 200 (JObj [(''status'', JStr ''PENDING'')]))),
     (test_vote (JStr ''validator_3'') ''K3'' ''REVOKE_CREDENTIAL'' True,
      Done (Reply 200 (JObj [(''status'', JStr ''EXECUTED'')]))),
     (test_vote (JStr ''validator_4'') ''K4'' ''REVOKE_CREDENTIAL'' True,
      Decide (Some (test_proposal idA ''REVOKE_CREDENTIAL'' [])))],
    executed_world) \<and>
   run test_env [3, 0, 0, 0, 1, 1, 1, 2, 2, 2, 3, 3]
     [(test_vote (JStr ''validator_1'') ''K1'' ''REVOKE_CREDENTIAL'' True, Fetch),
      (test_vote (JStr ''validator_2'') ''K2'' ''REVOKE_CREDENTIAL'' True, Fetch),
      (test_vote (JStr ''validator_3'') ''K3'' ''REVOKE_CREDENTIAL'' True, Fetch),
      (test_vote (JStr ''validator_4'') ''K4'' ''REVOKE_CREDENTIAL'' True, Fetch)]
     (test_world ''REVOKE_CREDENTIAL'' []) =
   ([(test_vote (JStr ''validator_1'') ''K1'' ''REVOKE_CREDENTIAL'' True,
      Done (Reply 200 (JObj [(''status'', JStr ''PENDING'')]))),
     (test_vote (JStr ''validator_2'') ''K2'' ''REVOKE_CREDENTIAL'' True,
      Done (Reply 200 (JObj [(''status'', JStr ''PENDING'')]))),
     (test_vote (JStr ''validator_3'') ''K3'' ''REVOKE_CREDENTIAL'' True,
      Done (Reply 200 (JObj [(''status'', JStr ''EXECUTED'')]))),
     (test_vote (JStr ''validator_4'') ''K4'' ''REVOKE_CREDENTIAL'' True,
      Done (Reply 200 (JObj [(''status'', JStr ''PENDING'')])))],
    \<lparr>proposals =
       [''proposal:'' @ idA \<mapsto>
          \<lparr>val = test_proposal idA ''REVOKE_CREDENTIAL'' [JStr ''validator_4''],
           expires = None\<rparr>],
     issuer_calls = [JObj [(''cred_rev_id'', JStr ''1''), (''publish'', JBool True)]]\<rparr>) \<and>
   castVote test_env
     ((test_vote (JStr ''validator_1'') ''K1'' ''REVOKE_CREDENTIAL'' True)\<lparr>v_now := 86400\<rparr>)
     (test_world ''REVOKE_CREDENTIAL'' []) =
   (error_reply 404 ''Not Found'', test_world ''REVOKE_CREDENTIAL'' [])"
  by (simp add: test_defs vote_defs executed_world_def)

text \<open>
  C5, amended. The handler writes no status but PENDING and EXECUTED: a created
  proposal is PENDING, and what a vote hands to its write is PENDING or EXECUTED. A
  vote that fetches a proposal whose status is not PENDING is answered 400
  \<^verbatim>\<open>Finalized\<close> and changes nothing; whatever vote runs from its fetch to its write
  after that, and whatever proposal is created under another id, the proposal reads
  back as it was, approvals and status. A vote on a proposal whose time to live has
  run out is answered 404 \<^verbatim>\<open>Not Found\<close> and changes nothing.
\<close>

theorem finalized_proposal_is_frozen:
  "status (val (the (proposals (snd (createProposal c w)) (''proposal:'' @ c_uuid c)))) =
     ''PENDING'' \<and>
   (\<forall>raw p w1. decide e r raw w = (Inr p, w1) \<longrightarrow>
      status p = ''PENDING'' \<or> status p = ''EXECUTED'') \<and>
   (\<forall>p. fetch r w = Some p \<and> status p \<noteq> ''PENDING'' \<longrightarrow>
      castVote e r w = (error_reply 400 ''Finalized'', w) \<and>
      (\<forall>r'. fetch r (snd (castVote e r' w)) = Some p) \<and>
      (\<forall>c'. c_uuid c' \<noteq> v_id r \<longrightarrow> fetch r (snd (createProposal c' w)) = Some p)) \<and>
   (\<forall>en t. proposals w (''proposal:'' @ v_id r) = Some en \<and> expires en = Some t \<and>
      t \<le> v_now r \<longrightarrow> castVote e r w = (error_reply 404 ''Not Found'', w))"
proof (intro conjI allI impI)
  show "status (val (the (proposals (snd (createProposal c w)) (''proposal:'' @ c_uuid c)))) =
     ''PENDING''"
    by (simp add: createProposal_def redis_set_ex_def)
next
  fix raw p w1
  assume d: "decide e r raw w = (Inr p, w1)"
  show "status p = ''PENDING'' \<or> status p = ''EXECUTED''"
  proof (cases raw)
    case None
    with d show ?thesis by (simp add: decide_def)
  next
    case (Some p0)
    show ?thesis
    proof (cases "accepted e r p0")
      case True
      then have "status p0 = ''PENDING''" by (simp add: accepted_def)
      with decide_accepted [OF True, of w] d Some show ?thesis
        by (auto simp add: voted_def split: if_splits)
    next
      case False
      from decide_not_accepted [OF this, of w] d Some show ?thesis by auto
    qed
  qed
next
  fix p
  assume a: "fetch r w = Some p \<and> status p \<noteq> ''PENDING''"
  then have f: "fetch r w = Some p" and fin: "status p \<noteq> ''PENDING''" by simp_all
  show "castVote e r w = (error_reply 400 ''Finalized'', w)"
    using f fin by (rule castVote_finalized)
  show "fetch r (snd (castVote e r' w)) = Some p" for r'
  proof (cases "v_id r' = v_id r")
    case False
    then have "proposals (snd (castVote e r' w)) (''proposal:'' @ v_id r) =
               proposals w (''proposal:'' @ v_id r)"
      by (intro castVote_other_key) simp
    with f show ?thesis by (simp add: fetch_def redis_get_def)
  next
    case True
    show ?thesis
    proof (cases "fetch r' w")
      case None
      with f show ?thesis by (simp add: castVote_not_found)
    next
      case (Some p')
      with f True have "p' = p"
        by (auto simp add: fetch_def redis_get_def split: option.splits if_splits)
      with Some fin have "castVote e r' w = (error_reply 400 ''Finalized'', w)"
        by (simp add: castVote_finalized)
      with f show ?thesis by simp
    qed
  qed
  show "fetch r (snd (createProposal c' w)) = Some p" if "c_uuid c' \<noteq> v_id r" for c'
    using that f by (simp add: createProposal_def fetch_def redis_get_def redis_set_ex_def)
next
  fix en t
  assume "proposals w (''proposal:'' @ v_id r) = Some en \<and> expires en = Some t \<and> t \<le> v_now r"
  then have "fetch r w = None" by (simp add: fetch_def redis_get_def)
  then show "castVote e r w = (error_reply 404 ''Not Found'', w)" by (rule castVote_not_found)
qed

theorem finalized_proposal_is_frozen_witness:
  "fetch (test_vote (JStr ''validator_1'') ''K1'' ''REVOKE_CREDENTIAL'' True) executed_world =
     Some ((test_proposal idA ''REVOKE_CREDENTIAL''
             [JStr ''validator_1'', JStr ''validator_2'', JStr ''validator_3''])
           \<lparr>status := ''EXECUTED''\<rparr>) \<and>
   castVote test_env (test_vote (JStr ''validator_1'') ''K1'' ''REVOKE_CREDENTIAL'' True)
     executed_world = (error_reply 400 ''Finalized'', executed_world) \<and>
   fetch (test_vote (JStr ''validator_1'') ''K1'' ''REVOKE_CREDENTIAL'' True)
     (snd (castVote test_env (test_vote (JStr ''validator_4'') ''K4'' ''REVOKE_CREDENTIAL'' True)
             executed_world)) =
     Some ((test_proposal idA ''REVOKE_CREDENTIAL''
             [JStr ''validator_1'', JStr ''validator_2'', JStr ''validator_3''])
           \<lparr>status := ''EXECUTED''\<rparr>)"
proof -
  let ?r = "test_vote (JStr ''validator_1'') ''K1'' ''REVOKE_CREDENTIAL'' True"
  let ?p = "(test_proposal idA ''REVOKE_CREDENTIAL''
             [JStr ''validator_1'', JStr ''validator_2'', JStr ''validator_3''])
           \<lparr>status := ''EXECUTED''\<rparr>"
  have f: "fetch ?r executed_world = Some ?p"
    by (simp add: fetch_def redis_get_def executed_world_def test_defs)
  have s: "status ?p \<noteq> ''PENDING''" by simp
  from finalized_proposal_is_frozen [where e = test_env and r = "?r" and w = executed_world] f s
  show ?thesis by blast
qed

text \<open>
  C1, as stated, fails: the third vote on a proposal whose action is not
  \<^verbatim>\<open>REVOKE_CREDENTIAL\<close> sets the status to EXECUTED and calls nothing.
\<close>

theorem other_action_executes_nothing:
  "fst (castVote test_env (test_vote (JStr ''validator_3'') ''K3'' ''ROTATE_KEY'' True)
          (test_world ''ROTATE_KEY'' [JStr ''validator_1'', JStr ''validator_2''])) =
     Reply 200 (JObj [(''status'', JStr ''EXECUTED'')]) \<and>
   issuer_calls (snd (castVote test_env (test_vote (JStr ''validator_3'') ''K3'' ''ROTATE_KEY'' True)
          (test_world ''ROTATE_KEY'' [JStr ''validator_1'', JStr ''validator_2'']))) = []"
  by (simp add: test_defs vote_defs)

text \<open>
  C1, amended. Let a vote pass every check of the handler on the pending proposal it
  fetched. While the approvals, this vote counted, stay below the threshold of 3, the
  answer is PENDING, the proposal is written back with the vote and nothing is called.
  Once they reach it: when the action is the string \<^verbatim>\<open>REVOKE_CREDENTIAL\<close>, the issuer
  agent is called exactly once, with the fields of the payload and \<^verbatim>\<open>publish: true\<close>,
  and then, if the call succeeded, the status EXECUTED is written with the vote, while
  after a failed call the answer is 500 and the store is left as it was; when the
  action is anything else, the status EXECUTED is written with the vote and nothing is
  called.
\<close>

theorem threshold_vote:
  assumes "fetch r w = Some p" and "accepted e r p"
  shows "(length (approvals p) + 1 < THRESHOLD \<longrightarrow>
            castVote e r w =
              (Reply 200 (JObj [(''status'', JStr ''PENDING'')]),
               w\<lparr>proposals := redis_set (proposals w) (''proposal:'' @ v_id r) (voted r p)\<rparr>)) \<and>
         (THRESHOLD \<le> length (approvals p) + 1 \<and> action p = Some (JStr ''REVOKE_CREDENTIAL'') \<longrightarrow>
            castVote e r w =
              (if issuer_up r then
                 (Reply 200 (JObj [(''status'', JStr ''EXECUTED'')]),
                  w\<lparr>issuer_calls := issuer_calls w @ [revoke_body (payload p)],
                    proposals := redis_set (proposals w) (''proposal:'' @ v_id r)
                                   ((voted r p)\<lparr>status := ''EXECUTED''\<rparr>)\<rparr>)
               else
                 (error_reply 500 ''Internal Error'',
                  w\<lparr>issuer_calls := issuer_calls w @ [revoke_body (payload p)]\<rparr>))) \<and>
         (THRESHOLD \<le> length (approvals p) + 1 \<and> action p \<noteq> Some (JStr ''REVOKE_CREDENTIAL'') \<longrightarrow>
            castVote e r w =
              (Reply 200 (JObj [(''status'', JStr ''EXECUTED'')]),
               w\<lparr>proposals := redis_set (proposals w) (''proposal:'' @ v_id r)
                                ((voted r p)\<lparr>status := ''EXECUTED''\<rparr>)\<rparr>))"
proof -
  from assms(2) have "status p = ''PENDING''" by (simp add: accepted_def)
  then have "status (voted r p) = ''PENDING''" by (simp add: voted_def)
  with castVote_accepted [OF assms] show ?thesis
    by (simp add: commit_def called_def)
qed

theorem threshold_vote_witness:
  "fetch (test_vote (JStr ''validator_3'') ''K3'' ''REVOKE_CREDENTIAL'' True)
     (test_world ''REVOKE_CREDENTIAL'' [JStr ''validator_1'', JStr ''validator_2'']) =
     Some (test_proposal idA ''REVOKE_CREDENTIAL'' [JStr ''validator_1'', JStr ''validator_2'']) \<and>
   accepted test_env (test_vote (JStr ''validator_3'') ''K3'' ''REVOKE_CREDENTIAL'' True)
     (test_proposal idA ''REVOKE_CREDENTIAL'' [JStr ''validator_1'', JStr ''validator_2'']) \<and>
   castVote test_env (test_vote (JStr ''validator_3'') ''K3'' ''REVOKE_CREDENTIAL'' True)
     (test_world ''REVOKE_CREDENTIAL'' [JStr ''validator_1'', JStr ''validator_2'']) =
     (Reply 200 (JObj [(''status'', JStr ''EXECUTED'')]),
      \<lparr>proposals =
         [''proposal:'' @ idA \<mapsto>
            \<lparr>val = (test_proposal idA ''REVOKE_CREDENTIAL''
                      [JStr ''validator_1'', JStr ''validator_2'', JStr ''validator_3''])
                    \<lparr>status := ''EXECUTED''\<rparr>,
             expires = None\<rparr>],
       issuer_calls = [JObj [(''cred_rev_id'', JStr ''1''), (''publish'', JBool True)]]\<rparr>)"
proof -
  let ?r = "test_vote (JStr ''validator_3'') ''K3'' ''REVOKE_CREDENTIAL'' True"
  let ?w = "test_world ''REVOKE_CREDENTIAL'' [JStr ''validator_1'', JStr ''validator_2'']"
  let ?p = "test_proposal idA ''REVOKE_CREDENTIAL'' [JStr ''validator_1'', JStr ''validator_2'']"
  have f: "fetch ?r ?w = Some ?p"
    by (simp add: test_defs fetch_def redis_get_def)
  have a: "accepted test_env ?r ?p"
    by (simp add: test_defs accepted_def includes_js_def js_string_def message_def)
  from threshold_vote [OF f a] f a show ?thesis
    by (simp add: test_defs THRESHOLD_def voted_def pushed_def revoke_body_def redis_set_def)
qed

text \<open>
  C3, as stated, fails: when the call to the issuer agent fails, the answer is 500, the
  call has been made, and the store still holds the proposal PENDING, without the vote.
\<close>

theorem failed_call_leaves_pending:
  "castVote test_env (test_vote (JStr ''validator_3'') ''K3'' ''REVOKE_CREDENTIAL'' False)
     (test_world ''REVOKE_CREDENTIAL'' [JStr ''validator_1'', JStr ''validator_2'']) =
   (error_reply 500 ''Internal Error'',
    \<lparr>proposals =
       [''proposal:'' @ idA \<mapsto>
          \<lparr>val = test_proposal idA ''REVOKE_CREDENTIAL'' [JStr ''validator_1'', JStr ''validator_2''],
           expires = Some 86400\<rparr>],
     issuer_calls = [JObj [(''cred_rev_id'', JStr ''1''), (''publish'', JBool True)]]\<rparr>)"
  by (simp add: test_defs vote_defs)

text \<open>
  C3, amended. When a vote brings a \<^verbatim>\<open>REVOKE_CREDENTIAL\<close> proposal to the threshold, the
  issuer agent is called before anything is written: after that stretch of the handler
  the store is as it was and the write is still to come. If the call succeeds, the vote
  and the status EXECUTED are then written; if it fails, the request ends with 500 and
  the store keeps the proposal as it was.
\<close>

theorem call_precedes_commit:
  assumes "fetch r w = Some p" and "accepted e r p"
    and "THRESHOLD \<le> length (approvals p) + 1"
    and "action p = Some (JStr ''REVOKE_CREDENTIAL'')"
  shows "vote_step e r (Decide (Some p)) w =
           (if issuer_up r then Commit ((voted r p)\<lparr>status := ''EXECUTED''\<rparr>)
            else Done (error_reply 500 ''Internal Error''),
            w\<lparr>issuer_calls := issuer_calls w @ [revoke_body (payload p)]\<rparr>) \<and>
         castVote e r w =
           (if issuer_up r then
              (Reply 200 (JObj [(''status'', JStr ''EXECUTED'')]),
               w\<lparr>issuer_calls := issuer_calls w @ [revoke_body (payload p)],
                 proposals := redis_set (proposals w) (''proposal:'' @ v_id r)
                                ((voted r p)\<lparr>status := ''EXECUTED''\<rparr>)\<rparr>)
            else
              (error_reply 500 ''Internal Error'',
               w\<lparr>issuer_calls := issuer_calls w @ [revoke_body (payload p)]\<rparr>))"
proof
  from assms(2-4) show "vote_step e r (Decide (Some p)) w =
           (if issuer_up r then Commit ((voted r p)\<lparr>status := ''EXECUTED''\<rparr>)
            else Done (error_reply 500 ''Internal Error''),
            w\<lparr>issuer_calls := issuer_calls w @ [revoke_body (payload p)]\<rparr>)"
    by (auto simp add: decide_def accepted_def voted_def Let_def split: option.splits)
  from castVote_accepted [OF assms(1,2)] assms(3,4) show "castVote e r w =
           (if issuer_up r then
              (Reply 200 (JObj [(''status'', JStr ''EXECUTED'')]),
               w\<lparr>issuer_calls := issuer_calls w @ [revoke_body (payload p)],
                 proposals := redis_set (proposals w) (''proposal:'' @ v_id r)
                                ((voted r p)\<lparr>status := ''EXECUTED''\<rparr>)\<rparr>)
            else
              (error_reply 500 ''Internal Error'',
               w\<lparr>issuer_calls := issuer_calls w @ [revoke_body (payload p)]\<rparr>))"
    by (simp add: commit_def called_def)
qed

theorem call_precedes_commit_witness:
  "fetch (test_vote (JStr ''validator_3'') ''K3'' ''REVOKE_CREDENTIAL'' False)
     (test_world ''REVOKE_CREDENTIAL'' [JStr ''validator_1'', JStr ''validator_2'']) =
     Some (test_proposal idA ''REVOKE_CREDENTIAL'' [JStr ''validator_1'', JStr ''validator_2'']) \<and>
   accepted test_env (test_vote (JStr ''validator_3'') ''K3'' ''REVOKE_CREDENTIAL'' False)
     (test_proposal idA ''REVOKE_CREDENTIAL'' [JStr ''validator_1'', JStr ''validator_2'']) \<and>
   THRESHOLD \<le> length (approvals (test_proposal idA ''REVOKE_CREDENTIAL''
                                    [JStr ''validator_1'', JStr ''validator_2''])) + 1 \<and>
   proposals (snd (castVote test_env (test_vote (JStr ''validator_3'') ''K3'' ''REVOKE_CREDENTIAL'' False)
     (test_world ''REVOKE_CREDENTIAL'' [JStr ''validator_1'', JStr ''validator_2'']))) =
     proposals (test_world ''REVOKE_CREDENTIAL'' [JStr ''validator_1'', JStr ''validator_2'']) \<and>
   issuer_calls (snd (castVote test_env (test_vote (JStr ''validator_3'') ''K3'' ''REVOKE_CREDENTIAL'' False)
     (test_world ''REVOKE_CREDENTIAL'' [JStr ''validator_1'', JStr ''validator_2'']))) =
     [JObj [(''cred_rev_id'', JStr ''1''), (''publish'', JBool True)]]"
proof -
  let ?r = "test_vote (JStr ''validator_3'') ''K3'' ''REVOKE_CREDENTIAL'' False"
  let ?w = "test_world ''REVOKE_CREDENTIAL'' [JStr ''validator_1'', JStr ''validator_2'']"
  let ?p = "test_proposal idA ''REVOKE_CREDENTIAL'' [JStr ''validator_1'', JStr ''validator_2'']"
  have f: "fetch ?r ?w = Some ?p"
    by (simp add: test_defs fetch_def redis_get_def)
  have a: "accepted test_env ?r ?p"
    by (simp add: test_defs accepted_def includes_js_def js_string_def message_def)
  have t: "THRESHOLD \<le> length (approvals ?p) + 1"
    by (simp add: test_defs THRESHOLD_def)
  have c: "action ?p = Some (JStr ''REVOKE_CREDENTIAL'')"
    by (simp add: test_defs)
  have u: "\<not> issuer_up ?r"
    by (simp add: test_defs)
  from call_precedes_commit [OF f a t c] u have
    "castVote test_env ?r ?w =
       (error_reply 500 ''Internal Error'', ?w\<lparr>issuer_calls := issuer_calls ?w @ [revoke_body (payload ?p)]\<rparr>)"
    by simp
  with f a t show ?thesis
    by (simp add: test_defs revoke_body_def)
qed

text \<open>
  A validator id that is a JSON string (or any other primitive) and is among the
  approvals is turned away with 409 \<^verbatim>\<open>Voted\<close>, and nothing changes.
\<close>

lemma duplicate_vote_rejected:
  assumes "fetch r w = Some p" and "status p = ''PENDING''"
    and "validatorId r = Some v" and "primitive v" and "v \<in> set (approvals p)"
  shows "castVote e r w = (error_reply 409 ''Voted'', w)"
  using assms by (intro castVote_voted) (simp_all add: includes_js_def)

text \<open>
  C6. The same vote sent twice with the validator id written as a one-element array:
  the array selects the key of \<^verbatim>\<open>validator_1\<close>, is identical to no stored approval,
  and is accepted both times, so the approvals hold that validator twice.
\<close>

theorem array_id_votes_twice:
  "fst (castVote test_env (test_vote (JArr [JStr ''validator_1'']) ''K1'' ''REVOKE_CREDENTIAL'' True)
          (test_world ''REVOKE_CREDENTIAL'' [])) =
     Reply 200 (JObj [(''status'', JStr ''PENDING'')]) \<and>
   fst (castVote test_env (test_vote (JArr [JStr ''validator_1'']) ''K1'' ''REVOKE_CREDENTIAL'' True)
          (snd (castVote test_env
                  (test_vote (JArr [JStr ''validator_1'']) ''K1'' ''REVOKE_CREDENTIAL'' True)
                  (test_world ''REVOKE_CREDENTIAL'' [])))) =
     Reply 200 (JObj [(''status'', JStr ''PENDING'')]) \<and>
   map_option approvals
     (fetch (test_vote (JArr [JStr ''validator_1'']) ''K1'' ''REVOKE_CREDENTIAL'' True)
        (snd (castVote test_env
                (test_vote (JArr [JStr ''validator_1'']) ''K1'' ''REVOKE_CREDENTIAL'' True)
                (snd (castVote test_env
                        (test_vote (JArr [JStr ''validator_1'']) ''K1'' ''REVOKE_CREDENTIAL'' True)
                        (test_world ''REVOKE_CREDENTIAL'' [])))))) =
     Some [JArr [JStr ''validator_1''], JArr [JStr ''validator_1'']]"
  by (simp add: test_defs vote_defs)

text \<open>
  C8. A vote by a validator that is not configured ends in the error handler: 500
  \<^verbatim>\<open>Internal Error\<close>, the same answer as for a configured validator whose signature is
  missing from the body.
\<close>

theorem unknown_validator_internal_error:
  "castVote test_env (test_vote (JStr ''validator_9'') ''K9'' ''REVOKE_CREDENTIAL'' True)
     (test_world ''REVOKE_CREDENTIAL'' []) =
     (error_reply 500 ''Internal Error'', test_world ''REVOKE_CREDENTIAL'' []) \<and>
   castVote test_env ((test_vote (JStr ''validator_1'') ''K1'' ''REVOKE_CREDENTIAL'' True)\<lparr>signature := None\<rparr>)
     (test_world ''REVOKE_CREDENTIAL'' []) =
     (error_reply 500 ''Internal Error'', test_world ''REVOKE_CREDENTIAL'' [])"
  by (simp add: test_defs vote_defs)

text \<open>
  C10. A created proposal is stored with a time to live of 86400 seconds and reads back
  only before it lapses. A vote answered 200 has written back, without a time to live,
  the proposal it fetched with the vote added to the approvals and with the status
  EXECUTED once the approvals reach the threshold: from then on that record reads back
  at every time.
\<close>

theorem vote_discards_expiry:
  "(\<forall>t. redis_get t (proposals (snd (createProposal c w))) (''proposal:'' @ c_uuid c) =
      (if t < c_now c + 86400
       then Some \<lparr>proposal_id = c_uuid c, action = c_action c, payload = c_payload c,
                  requestor = c_username c, approvals = [], status = ''PENDING'',
                  createdAt = c_now c\<rparr>
       else None)) \<and>
   (\<forall>b. fst (castVote e r w) = Reply 200 b \<longrightarrow>
      (\<exists>p. fetch r w = Some p \<and>
           proposals (snd (castVote e r w)) (''proposal:'' @ v_id r) =
             Some \<lparr>val = p\<lparr>approvals := approvals p @ [pushed (validatorId r)],
                           status := if length (approvals p) + 1 < THRESHOLD
                                     then ''PENDING'' else ''EXECUTED''\<rparr>,
                   expires = None\<rparr> \<and>
           (\<forall>t. redis_get t (proposals (snd (castVote e r w))) (''proposal:'' @ v_id r) =
                  Some (p\<lparr>approvals := approvals p @ [pushed (validatorId r)],
                          status := if length (approvals p) + 1 < THRESHOLD
                                    then ''PENDING'' else ''EXECUTED''\<rparr>))))"
proof (intro conjI allI impI)
  show "redis_get t (proposals (snd (createProposal c w))) (''proposal:'' @ c_uuid c) =
      (if t < c_now c + 86400
       then Some \<lparr>proposal_id = c_uuid c, action = c_action c, payload = c_payload c,
                  requestor = c_username c, approvals = [], status = ''PENDING'',
                  createdAt = c_now c\<rparr>
       else None)" for t
    by (simp add: createProposal_def redis_get_def redis_set_ex_def)
next
  fix b
  assume ok: "fst (castVote e r w) = Reply 200 b"
  from castVote_200 [OF ok] obtain p where p: "fetch r w = Some p"
    and st: "proposals (snd (castVote e r w)) =
               (proposals w)(''proposal:'' @ v_id r \<mapsto>
                  \<lparr>val = p\<lparr>approvals := approvals p @ [pushed (validatorId r)],
                           status := if length (approvals p) + 1 < THRESHOLD
                                     then ''PENDING'' else ''EXECUTED''\<rparr>,
                   expires = None\<rparr>)"
    by blast
  from p st show "\<exists>p. fetch r w = Some p \<and>
           proposals (snd (castVote e r w)) (''proposal:'' @ v_id r) =
             Some \<lparr>val = p\<lparr>approvals := approvals p @ [pushed (validatorId r)],
                           status := if length (approvals p) + 1 < THRESHOLD
                                     then ''PENDING'' else ''EXECUTED''\<rparr>,
                   expires = None\<rparr> \<and>
           (\<forall>t. redis_get t (proposals (snd (castVote e r w))) (''proposal:'' @ v_id r) =
                  Some (p\<lparr>approvals := approvals p @ [pushed (validatorId r)],
                          status := if length (approvals p) + 1 < THRESHOLD
                                    then ''PENDING'' else ''EXECUTED''\<rparr>))"
    by (intro exI [of _ p]) (simp add: redis_get_def)
qed

theorem vote_discards_expiry_witness:
  "fst (castVote test_env (test_vote (JStr ''validator_1'') ''K1'' ''REVOKE_CREDENTIAL'' True)
          (test_world ''REVOKE_CREDENTIAL'' [])) = Reply 200 (JObj [(''status'', JStr ''PENDING'')]) \<and>
   redis_get 86400 (proposals (test_world ''REVOKE_CREDENTIAL'' [])) (''proposal:'' @ idA) = None \<and>
   redis_get 86400
     (proposals (snd (castVote test_env
                        (test_vote (JStr ''validator_1'') ''K1'' ''REVOKE_CREDENTIAL'' True)
                        (test_world ''REVOKE_CREDENTIAL'' []))))
     (''proposal:'' @ idA) =
     Some (test_proposal idA ''REVOKE_CREDENTIAL'' [JStr ''validator_1''])"
proof -
  let ?r = "test_vote (JStr ''validator_1'') ''K1'' ''REVOKE_CREDENTIAL'' True"
  let ?w = "test_world ''REVOKE_CREDENTIAL'' []"
  have a: "fst (castVote test_env ?r ?w) = Reply 200 (JObj [(''status'', JStr ''PENDING'')])"
    by (simp add: test_defs vote_defs)
  have b: "redis_get 86400 (proposals ?w) (''proposal:'' @ idA) = None"
    by (simp add: test_defs redis_get_def)
  have c: "v_id ?r = idA" "validatorId ?r = Some (JStr ''validator_1'')"
    by (simp_all add: test_vote_def)
  have f: "fetch ?r ?w = Some (test_proposal idA ''REVOKE_CREDENTIAL'' [])"
    by (simp add: test_defs fetch_def redis_get_def)
  from vote_discards_expiry [where e = test_env and r = "?r" and w = "?w"] a
  obtain p where p: "fetch ?r ?w = Some p"
    and g: "\<forall>t. redis_get t (proposals (snd (castVote test_env ?r ?w))) (''proposal:'' @ v_id ?r) =
                  Some (p\<lparr>approvals := approvals p @ [pushed (validatorId ?r)],
                          status := if length (approvals p) + 1 < THRESHOLD
                                    then ''PENDING'' else ''EXECUTED''\<rparr>)"
    by blast
  from p f have "p = test_proposal idA ''REVOKE_CREDENTIAL'' []" by simp
  with g c have "redis_get 86400 (proposals (snd (castVote test_env ?r ?w))) (''proposal:'' @ idA) =
     Some (test_proposal idA ''REVOKE_CREDENTIAL'' [JStr ''validator_1''])"
    by (simp add: test_proposal_def THRESHOLD_def pushed_def)
  with a b show ?thesis by simp
qed

section \<open>Properties of the transparency log\<close>

lemma digit_code: "d < 10 \<Longrightarrow> (of_char (''0123456789'' ! d) :: nat) = 48 + d"
proof -
  assume "d < 10"
  then have "d \<in> {0,1,2,3,4,5,6,7,8,9}" by auto
  then show ?thesis by auto
qed

lemma undec_snoc: "undec (s @ [c]) = 10 * undec s + (of_char c - 48)"
  by (simp add: undec_def)

lemma undec_dec: "undec (dec n) = n"
proof (induction n rule: dec.induct)
  case (1 n)
  show ?case
  proof (cases "n < 10")
    case True
    then show ?thesis by (simp add: dec.simps [of n] undec_def digit_code)
  next
    case False
    with 1 have "undec (dec (n div 10)) = n div 10" by simp
    with False show ?thesis
      by (simp add: dec.simps [of n] undec_snoc digit_code)
  qed
qed

lemma log_entries_step:
  "log_entries r l = (resp, l') \<Longrightarrow>
   (logIndex resp = None \<and> l' = l) \<or>
   (logIndex resp = Some (length l + 1) \<and> (\<exists>x. l' = l @ [x]))"
  by (auto simp add: log_entries_def invalid_payload_def error_reply_def logIndex_def rPush_def undec_dec
      split: option.splits if_splits)


lemma map_filter_Cons_None: "f x = None \<Longrightarrow> List.map_filter f (x # xs) = List.map_filter f xs"
  by (simp add: List.map_filter_def)

lemma map_filter_Cons_Some: "f x = Some y \<Longrightarrow> List.map_filter f (x # xs) = y # List.map_filter f xs"
  by (simp add: List.map_filter_def)

lemma appends_indices:
  "appends rs l = (resps, l') \<Longrightarrow>
   List.map_filter logIndex resps = [length l + 1 ..< length l' + 1] \<and> length l \<le> length l' \<and>
   take (length l) l' = l"
proof (induction rs arbitrary: l resps l')
  case Nil
  then show ?case by (simp add: List.map_filter_def)
next
  case (Cons r rs)
  obtain resp l1 where step: "log_entries r l = (resp, l1)" by (cases "log_entries r l")
  obtain resps1 l2 where rest: "appends rs l1 = (resps1, l2)" by (cases "appends rs l1")
  from Cons.prems step rest have eq: "resps = resp # resps1" "l' = l2" by auto
  from Cons.IH [OF rest] have ih:
    "List.map_filter logIndex resps1 = [length l1 + 1 ..< length l2 + 1]"
    "length l1 \<le> length l2" "take (length l1) l2 = l1" by auto
  from log_entries_step [OF step] show ?case
  proof
    assume "logIndex resp = None \<and> l1 = l"
    with ih eq show ?thesis by (simp add: map_filter_Cons_None)
  next
    assume "logIndex resp = Some (length l + 1) \<and> (\<exists>x. l1 = l @ [x])"
    then obtain x where x: "logIndex resp = Some (length l + 1)" "l1 = l @ [x]" by auto
    from x ih have len: "length l + 1 \<le> length l2" by simp
    have "take (length l) l2 = take (length l) (take (length l1) l2)"
      using x by (simp add: min_def)
    also have "\<dots> = l" using ih(3) x by simp
    finally have tk: "take (length l) l2 = l" .
    have "[length l + 1 ..< length l2 + 1] = (length l + 1) # [length l1 + 1 ..< length l2 + 1]"
      using len x by (simp add: upt_conv_Cons)
    with x ih eq tk len show ?thesis by (simp add: map_filter_Cons_Some)
  qed
qed

text \<open>
  C9. Appends run one after the other from a log \<open>l\<close>: the indices returned are
  exactly \<open>length l + 1, length l + 2, \<dots>\<close> up to the final length, so they are
  unique, strictly increasing and without a gap; the log before is the beginning of the
  log after, so no entry is removed or moved; and an append whose payload passes the
  check returns the index \<open>length l + 1\<close>.
\<close>

theorem append_indices:
  assumes "appends rs l = (resps, l')"
  shows "List.map_filter logIndex resps = [length l + 1 ..< length l' + 1] \<and>
         distinct (List.map_filter logIndex resps) \<and>
         sorted_wrt (<) (List.map_filter logIndex resps) \<and>
         take (length l) l' = l \<and>
         (\<forall>r pl. a_body r = Some pl \<and> truthy pl \<and> \<not> falsy (property pl ''spec'') \<longrightarrow>
              logIndex (fst (log_entries r l)) = Some (length l + 1))"
proof -
  from appends_indices [OF assms] have
    a: "List.map_filter logIndex resps = [length l + 1 ..< length l' + 1]"
    and b: "take (length l) l' = l" by auto
  have c: "logIndex (fst (log_entries r l)) = Some (length l + 1)"
    if "a_body r = Some pl \<and> truthy pl \<and> \<not> falsy (property pl ''spec'')" for r pl
    using that by (simp add: log_entries_def logIndex_def rPush_def undec_dec)
  from a have d: "distinct (List.map_filter logIndex resps)"
    by (simp only: distinct_upt)
  from a have s: "sorted_wrt (<) (List.map_filter logIndex resps)"
    by (simp only: sorted_wrt_upt)
  from a b c d s show ?thesis by blast
qed

theorem append_indices_witness:
  "appends [test_append 1 ''u1'', \<lparr>a_now = 2, a_uuid = ''u2'', a_body = Some (JObj [])\<rparr>,
            test_append 3 ''u3''] [] =
     ([Reply 201 (JObj [(''uuid'', JStr ''u1''), (''logIndex'', JNum ''1''), (''nodepix'', JStr ''mock-proof'')]),
       invalid_payload,
       Reply 201 (JObj [(''uuid'', JStr ''u3''), (''logIndex'', JNum ''2''), (''nodepix'', JStr ''mock-proof'')])],
      [\<lparr>uuid = ''u1'', timestamp = 1, body = hashedrekord ''leaf''\<rparr>,
       \<lparr>uuid = ''u3'', timestamp = 3, body = hashedrekord ''leaf''\<rparr>]) \<and>
   List.map_filter logIndex
     [Reply 201 (JObj [(''uuid'', JStr ''u1''), (''logIndex'', JNum ''1''), (''nodepix'', JStr ''mock-proof'')]),
       invalid_payload,
       Reply 201 (JObj [(''uuid'', JStr ''u3''), (''logIndex'', JNum ''2''), (''nodepix'', JStr ''mock-proof'')])]
     = [1, 2]"
proof -
  have run: "appends [test_append 1 ''u1'', \<lparr>a_now = 2, a_uuid = ''u2'', a_body = Some (JObj [])\<rparr>,
            test_append 3 ''u3''] [] =
     ([Reply 201 (JObj [(''uuid'', JStr ''u1''), (''logIndex'', JNum ''1''), (''nodepix'', JStr ''mock-proof'')]),
       invalid_payload,
       Reply 201 (JObj [(''uuid'', JStr ''u3''), (''logIndex'', JNum ''2''), (''nodepix'', JStr ''mock-proof'')])],
      [\<lparr>uuid = ''u1'', timestamp = 1, body = hashedrekord ''leaf''\<rparr>,
       \<lparr>uuid = ''u3'', timestamp = 3, body = hashedrekord ''leaf''\<rparr>])"
    by (simp add: test_append_def log_entries_def hashedrekord_def property_def falsy_def rPush_def
        dec.simps)
  have "[Suc 0 ..< 3] = [1, 2]" by (simp add: upt_conv_Cons)
  with append_indices [OF run] run show ?thesis by simp
qed

section \<open>Properties of the verification gateway\<close>

lemmas gw_test_defs = test_gw_env_def test_hook_def test_gw_world_def test_sha256_def test_base64_def

lemmas gw_defs = webhook_def hook_write_def hook_fetch_def session_key_def verify_route_def obj_def
  property_def redis_get_def redis_set_ex_def js_string_def handleSuccessfulVerification_def
  log_entries_def falsy_def hashedrekord_def rPush_def Let_def

text \<open>
  What a delivery that reports success does with the copy of the session it fetched,
  whatever the store holds when it writes.
\<close>

lemma hook_write_success:
  assumes "map_of (h_body r) ''state'' = Some (JStr ''verified'')"
    and "map_of (h_body r) ''verified'' = Some (JStr ''true'') \<or>
         map_of (h_body r) ''verified'' = Some (JBool True)"
    and "session_key (map_of (h_body r) ''presentation_exchange_id'') = Some k"
  shows "hook_write g r (Some s) w =
           (ReplyEmpty 200,
            \<lparr>sessions = redis_set_ex (h_now r) (sessions w) k
                           (s\<lparr>s_status := ''VERIFIED_AND_LOGGED''\<rparr>) 3600,
             log_posts = log_posts w @
               [hashedrekord (leafData g (h_now r) (map_of (h_body r) ''presentation_exchange_id'')
                                (JObj (h_body r)))],
             transparency_log =
               (if log_up r then
                  transparency_log w @
                    [\<lparr>uuid = log_uuid r, timestamp = log_now r,
                      body = hashedrekord
                               (leafData g (h_now r) (map_of (h_body r) ''presentation_exchange_id'')
                                  (JObj (h_body r)))\<rparr>]
                else transparency_log w)\<rparr>)"
  using assms
  by (auto simp add: hook_write_def handleSuccessfulVerification_def log_entries_def falsy_def
      hashedrekord_def property_def rPush_def Let_def)

text \<open>
  C4, as stated, fails: after the first delivery the session is VERIFIED_AND_LOGGED and
  the log holds one entry; the second delivery of the same event adds a second entry.
\<close>

theorem second_delivery_appends_again:
  "map_option s_status
     (redis_get 20 (sessions (snd (webhook test_gw_env (test_hook 10 ''u1'') test_gw_world))) ''session:X'') =
     Some ''VERIFIED_AND_LOGGED'' \<and>
   map uuid (transparency_log (snd (webhook test_gw_env (test_hook 10 ''u1'') test_gw_world))) = [''u1''] \<and>
   map uuid (transparency_log
     (snd (webhook test_gw_env (test_hook 20 ''u2'')
        (snd (webhook test_gw_env (test_hook 10 ''u1'') test_gw_world))))) = [''u1'', ''u2'']"
  by (simp add: gw_test_defs gw_defs)

text \<open>
  C4, amended. A delivery that reports success for an exchange id whose session is still
  in the store is answered 200, writes the session back as VERIFIED_AND_LOGGED with a
  new time to live of 3600 seconds, and makes one post to the log, whatever the status
  of the session was; the log gains one entry when the post reaches the log service and
  none when it does not. A second delivery of the event within the hour does the same
  again: the session stays VERIFIED_AND_LOGGED, a second post is made, and the log gains
  a second entry when that post reaches it.
\<close>

theorem each_delivery_appends:
  assumes "map_of (h_body r) ''state'' = Some (JStr ''verified'')"
    and "map_of (h_body r) ''verified'' = Some (JStr ''true'') \<or>
         map_of (h_body r) ''verified'' = Some (JBool True)"
    and "session_key (map_of (h_body r) ''presentation_exchange_id'') = Some k"
    and "redis_get (h_now r) (sessions w) k = Some s"
  shows "webhook g r w =
           (ReplyEmpty 200,
            \<lparr>sessions = redis_set_ex (h_now r) (sessions w) k
                           (s\<lparr>s_status := ''VERIFIED_AND_LOGGED''\<rparr>) 3600,
             log_posts = log_posts w @
               [hashedrekord (leafData g (h_now r) (map_of (h_body r) ''presentation_exchange_id'')
                                (JObj (h_body r)))],
             transparency_log =
               (if log_up r then
                  transparency_log w @
                    [\<lparr>uuid = log_uuid r, timestamp = log_now r,
                      body = hashedrekord
                               (leafData g (h_now r) (map_of (h_body r) ''presentation_exchange_id'')
                                  (JObj (h_body r)))\<rparr>]
                else transparency_log w)\<rparr>) \<and>
         (\<forall>r2. h_body r2 = h_body r \<and> h_now r2 < h_now r + 3600 \<longrightarrow>
            webhook g r2 (snd (webhook g r w)) =
              (ReplyEmpty 200,
               \<lparr>sessions = redis_set_ex (h_now r2) (sessions (snd (webhook g r w))) k
                              (s\<lparr>s_status := ''VERIFIED_AND_LOGGED''\<rparr>) 3600,
                log_posts = log_posts w @
                  [hashedrekord (leafData g (h_now r) (map_of (h_body r) ''presentation_exchange_id'')
                                   (JObj (h_body r))),
                   hashedrekord (leafData g (h_now r2) (map_of (h_body r) ''presentation_exchange_id'')
                                   (JObj (h_body r)))],
                transparency_log =
                  (if log_up r2 then
                     transparency_log (snd (webhook g r w)) @
                       [\<lparr>uuid = log_uuid r2, timestamp = log_now r2,
                         body = hashedrekord
                                  (leafData g (h_now r2) (map_of (h_body r) ''presentation_exchange_id'')
                                     (JObj (h_body r)))\<rparr>]
                   else transparency_log (snd (webhook g r w)))\<rparr>))"
proof -
  let ?post = "hashedrekord (leafData g (h_now r) (map_of (h_body r) ''presentation_exchange_id'')
                                (JObj (h_body r)))"
  let ?w1 = "\<lparr>sessions = redis_set_ex (h_now r) (sessions w) k
                           (s\<lparr>s_status := ''VERIFIED_AND_LOGGED''\<rparr>) 3600,
             log_posts = log_posts w @ [?post],
             transparency_log =
               (if log_up r then
                  transparency_log w @ [\<lparr>uuid = log_uuid r, timestamp = log_now r, body = ?post\<rparr>]
                else transparency_log w)\<rparr>"
  from assms(3,4) have f: "hook_fetch r w = Some s" by (simp add: hook_fetch_def)
  have first: "webhook g r w = (ReplyEmpty 200, ?w1)"
    unfolding webhook_def f by (rule hook_write_success [OF assms(1,2,3)])
  have second: "webhook g r2 (snd (webhook g r w)) =
              (ReplyEmpty 200,
               \<lparr>sessions = redis_set_ex (h_now r2) (sessions (snd (webhook g r w))) k
                              (s\<lparr>s_status := ''VERIFIED_AND_LOGGED''\<rparr>) 3600,
                log_posts = log_posts w @
                  [?post,
                   hashedrekord (leafData g (h_now r2) (map_of (h_body r) ''presentation_exchange_id'')
                                   (JObj (h_body r)))],
                transparency_log =
                  (if log_up r2 then
                     transparency_log (snd (webhook g r w)) @
                       [\<lparr>uuid = log_uuid r2, timestamp = log_now r2,
                         body = hashedrekord
                                  (leafData g (h_now r2) (map_of (h_body r) ''presentation_exchange_id'')
                                     (JObj (h_body r)))\<rparr>]
                   else transparency_log (snd (webhook g r w)))\<rparr>)"
    if b: "h_body r2 = h_body r" and t: "h_now r2 < h_now r + 3600" for r2
  proof -
    from t have "redis_get (h_now r2) (sessions ?w1) k = Some (s\<lparr>s_status := ''VERIFIED_AND_LOGGED''\<rparr>)"
      by (simp add: redis_get_def redis_set_ex_def)
    with assms(3) b have f2: "hook_fetch r2 ?w1 = Some (s\<lparr>s_status := ''VERIFIED_AND_LOGGED''\<rparr>)"
      by (simp add: hook_fetch_def)
    from assms(1,2,3) b have
      "map_of (h_body r2) ''state'' = Some (JStr ''verified'')"
      "map_of (h_body r2) ''verified'' = Some (JStr ''true'') \<or>
         map_of (h_body r2) ''verified'' = Some (JBool True)"
      "session_key (map_of (h_body r2) ''presentation_exchange_id'') = Some k"
      by simp_all
    note hw = hook_write_success [OF this, of g "s\<lparr>s_status := ''VERIFIED_AND_LOGGED''\<rparr>" ?w1]
    have "webhook g r2 ?w1 = hook_write g r2 (Some (s\<lparr>s_status := ''VERIFIED_AND_LOGGED''\<rparr>)) ?w1"
      by (simp only: webhook_def f2)
    also note hw
    finally show ?thesis by (simp add: first b)
  qed
  from first second show ?thesis by blast
qed

theorem each_delivery_appends_witness:
  "webhook test_gw_env (test_hook 10 ''u1'') test_gw_world =
     (ReplyEmpty 200,
      \<lparr>sessions =
         [''session:X'' \<mapsto>
            \<lparr>val = \<lparr>s_timestamp = 0, s_status = ''VERIFIED_AND_LOGGED'',
                    s_requestor = Some (JStr ''system'')\<rparr>,
             expires = Some 3610\<rparr>],
       log_posts =
         [hashedrekord (leafData test_gw_env 10 (Some (JStr ''X'')) (JObj (h_body (test_hook 10 ''u1''))))],
       transparency_log =
         [\<lparr>uuid = ''u1'', timestamp = 10,
           body = hashedrekord
                    (leafData test_gw_env 10 (Some (JStr ''X'')) (JObj (h_body (test_hook 10 ''u1''))))\<rparr>]\<rparr>) \<and>
   map uuid (transparency_log
     (snd (webhook test_gw_env (test_hook 20 ''u2'')
        (snd (webhook test_gw_env (test_hook 10 ''u1'') test_gw_world))))) = [''u1'', ''u2''] \<and>
   length (log_posts
     (snd (webhook test_gw_env ((test_hook 20 ''u2'')\<lparr>log_up := False\<rparr>)
        (snd (webhook test_gw_env (test_hook 10 ''u1'') test_gw_world))))) = 2 \<and>
   map uuid (transparency_log
     (snd (webhook test_gw_env ((test_hook 20 ''u2'')\<lparr>log_up := False\<rparr>)
        (snd (webhook test_gw_env (test_hook 10 ''u1'') test_gw_world))))) = [''u1'']"
proof -
  let ?r = "test_hook 10 ''u1''"
  let ?s = "\<lparr>s_timestamp = 0, s_status = ''REQUEST_SENT'', s_requestor = Some (JStr ''system'')\<rparr>"
  have a: "map_of (h_body ?r) ''state'' = Some (JStr ''verified'')"
    by (simp add: test_hook_def)
  have b: "map_of (h_body ?r) ''verified'' = Some (JStr ''true'') \<or>
           map_of (h_body ?r) ''verified'' = Some (JBool True)"
    by (simp add: test_hook_def)
  have c: "session_key (map_of (h_body ?r) ''presentation_exchange_id'') = Some ''session:X''"
    by (simp add: test_hook_def session_key_def js_string_def)
  have d: "redis_get (h_now ?r) (sessions test_gw_world) ''session:X'' = Some ?s"
    by (simp add: gw_test_defs gw_defs)
  have w: "sessions test_gw_world =
             [''session:X'' \<mapsto> \<lparr>val = ?s, expires = Some 3600\<rparr>]"
          "log_posts test_gw_world = []" "transparency_log test_gw_world = []"
    by (simp_all add: gw_test_defs gw_defs)
  have e: "h_body (test_hook 20 ''u2'') = h_body ?r \<and> h_now (test_hook 20 ''u2'') < h_now ?r + 3600"
          "h_body ((test_hook 20 ''u2'')\<lparr>log_up := False\<rparr>) = h_body ?r \<and>
           h_now ((test_hook 20 ''u2'')\<lparr>log_up := False\<rparr>) < h_now ?r + 3600"
    by (simp_all add: test_hook_def)
  have sel: "h_now ?r = 10" "log_up ?r" "log_now ?r = 10" "log_uuid ?r = ''u1''"
    "map_of (h_body ?r) ''presentation_exchange_id'' = Some (JStr ''X'')"
    "log_up (test_hook 20 ''u2'')" "log_uuid (test_hook 20 ''u2'') = ''u2''"
    by (simp_all add: test_hook_def)
  note t = each_delivery_appends [OF a b c d, of test_gw_env]
  from t [THEN conjunct1] have first: "webhook test_gw_env ?r test_gw_world =
     (ReplyEmpty 200,
      \<lparr>sessions =
         [''session:X'' \<mapsto>
            \<lparr>val = \<lparr>s_timestamp = 0, s_status = ''VERIFIED_AND_LOGGED'',
                    s_requestor = Some (JStr ''system'')\<rparr>,
             expires = Some 3610\<rparr>],
       log_posts =
         [hashedrekord (leafData test_gw_env 10 (Some (JStr ''X'')) (JObj (h_body (test_hook 10 ''u1''))))],
       transparency_log =
         [\<lparr>uuid = ''u1'', timestamp = 10,
           body = hashedrekord
                    (leafData test_gw_env 10 (Some (JStr ''X'')) (JObj (h_body (test_hook 10 ''u1''))))\<rparr>]\<rparr>)"
    by (simp add: w redis_set_ex_def sel)
  note x1 = t [THEN conjunct2, THEN spec, THEN mp, OF e(1)]
  have s1: "map uuid (transparency_log
     (snd (webhook test_gw_env (test_hook 20 ''u2'')
        (snd (webhook test_gw_env (test_hook 10 ''u1'') test_gw_world))))) = [''u1'', ''u2'']"
    by (subst x1) (simp add: first sel)
  note x2 = t [THEN conjunct2, THEN spec, THEN mp, OF e(2)]
  have s2: "length (log_posts
     (snd (webhook test_gw_env ((test_hook 20 ''u2'')\<lparr>log_up := False\<rparr>)
        (snd (webhook test_gw_env (test_hook 10 ''u1'') test_gw_world))))) = 2"
    by (subst x2) (simp add: w)
  have s3: "map uuid (transparency_log
     (snd (webhook test_gw_env ((test_hook 20 ''u2'')\<lparr>log_up := False\<rparr>)
        (snd (webhook test_gw_env (test_hook 10 ''u1'') test_gw_world))))) = [''u1'']"
    by (subst x2) (simp add: first)
  from first s1 s2 s3 show ?thesis by simp
qed

section \<open>Requests that share the store\<close>

text \<open>
  C2, as stated, fails. Two votes whose fetches both come before either write: both are
  answered 200, and the store ends with the second vote only. The same schedule at two
  approvals: both votes reach the threshold, and the issuer agent is called twice. And
  a session: a delivery fetches the session of exchange \<^verbatim>\<open>X\<close>; before it writes, a proof
  request that the agent answers with the id \<^verbatim>\<open>X\<close> again stores a new session there;
  the delivery then writes back the copy it fetched, and the new session is lost.
\<close>

theorem interleaved_votes:
  "run test_env [0, 1, 0, 0, 1, 1]
     [(test_vote (JStr ''validator_1'') ''K1'' ''ROTATE_KEY'' True, Fetch),
      (test_vote (JStr ''validator_2'') ''K2'' ''ROTATE_KEY'' True, Fetch)]
     (test_world ''ROTATE_KEY'' []) =
   ([(test_vote (JStr ''validator_1'') ''K1'' ''ROTATE_KEY'' True,
      Done (Reply 200 (JObj [(''status'', JStr ''PENDING'')]))),
     (test_vote (JStr ''validator_2'') ''K2'' ''ROTATE_KEY'' True,
      Done (Reply 200 (JObj [(''status'', JStr ''PENDING'')])))],
    \<lparr>proposals =
       [''proposal:'' @ idA \<mapsto>
          \<lparr>val = test_proposal idA ''ROTATE_KEY'' [JStr ''validator_2''], expires = None\<rparr>],
     issuer_calls = []\<rparr>) \<and>
   run test_env [0, 1, 0, 0, 1, 1]
     [(test_vote (JStr ''validator_3'') ''K3'' ''REVOKE_CREDENTIAL'' True, Fetch),
      (test_vote (JStr ''validator_4'') ''K4'' ''REVOKE_CREDENTIAL'' True, Fetch)]
     (test_world ''REVOKE_CREDENTIAL'' [JStr ''validator_1'', JStr ''validator_2'']) =
   ([(test_vote (JStr ''validator_3'') ''K3'' ''REVOKE_CREDENTIAL'' True,
      Done (Reply 200 (JObj [(''status'', JStr ''EXECUTED'')]))),
     (test_vote (JStr ''validator_4'') ''K4'' ''REVOKE_CREDENTIAL'' True,
      Done (Reply 200 (JObj [(''status'', JStr ''EXECUTED'')])))],
    \<lparr>proposals =
       [''proposal:'' @ idA \<mapsto>
          \<lparr>val = (test_proposal idA ''REVOKE_CREDENTIAL''
                    [JStr ''validator_1'', JStr ''validator_2'', JStr ''validator_4''])
                  \<lparr>status := ''EXECUTED''\<rparr>,
           expires = None\<rparr>],
     issuer_calls = [JObj [(''cred_rev_id'', JStr ''1''), (''publish'', JBool True)],
                     JObj [(''cred_rev_id'', JStr ''1''), (''publish'', JBool True)]]\<rparr>) \<and>
   hook_fetch (test_hook 11 ''u1'') test_gw_world =
     Some \<lparr>s_timestamp = 0, s_status = ''REQUEST_SENT'', s_requestor = Some (JStr ''system'')\<rparr> \<and>
   sessions (snd (verify_route test_verify_again test_gw_world)) =
     [''session:X'' \<mapsto>
        \<lparr>val = \<lparr>s_timestamp = 11, s_status = ''REQUEST_SENT'', s_requestor = Some (JStr ''alice'')\<rparr>,
         expires = Some 3611\<rparr>] \<and>
   sessions (snd (hook_write test_gw_env (test_hook 11 ''u1'')
                    (hook_fetch (test_hook 11 ''u1'') test_gw_world)
                    (snd (verify_route test_verify_again test_gw_world)))) =
     [''session:X'' \<mapsto>
        \<lparr>val = \<lparr>s_timestamp = 0, s_status = ''VERIFIED_AND_LOGGED'',
                s_requestor = Some (JStr ''system'')\<rparr>,
         expires = Some 3611\<rparr>]"
  by (simp add: test_defs vote_defs gw_test_defs gw_defs test_verify_again_def)

lemma first_runs_alone:
  "run e (0 # 0 # 0 # sched) ((r, Fetch) # ts) w =
   run e sched ((r, Done (fst (castVote e r w))) # ts) (snd (castVote e r w))"
proof -
  obtain d w1 where d: "decide e r (fetch r w) w = (d, w1)"
    by (cases "decide e r (fetch r w) w")
  show ?thesis
  proof (cases d)
    case (Inl resp)
    with d show ?thesis by (simp add: castVote_def)
  next
    case (Inr p)
    with d show ?thesis by (simp add: castVote_def commit_def)
  qed
qed

lemma second_runs_alone:
  "run e (1 # 1 # 1 # sched) (t # (r, Fetch) # ts) w =
   run e sched (t # (r, Done (fst (castVote e r w))) # ts) (snd (castVote e r w))"
proof -
  obtain d w1 where d: "decide e r (fetch r w) w = (d, w1)"
    by (cases "decide e r (fetch r w) w")
  show ?thesis
  proof (cases d)
    case (Inl resp)
    with d show ?thesis by (simp add: castVote_def)
  next
    case (Inr p)
    with d show ?thesis by (simp add: castVote_def commit_def)
  qed
qed

lemma run_alone_then_alone:
  "run e [0, 0, 0, 1, 1, 1] [(r1, Fetch), (r2, Fetch)] w =
   ([(r1, Done (fst (castVote e r1 w))),
     (r2, Done (fst (castVote e r2 (snd (castVote e r1 w)))))],
    snd (castVote e r2 (snd (castVote e r1 w))))"
  by (subst first_runs_alone, subst second_runs_alone, simp)

lemma reply_200_accepted:
  assumes "fetch r w = Some p" and "castVote e r w = (Reply 200 b, w1)"
  shows "accepted e r p"
proof (rule ccontr)
  assume "\<not> accepted e r p"
  with assms(1) have "fst (castVote e r w) \<noteq> Reply 200 b" by (rule not_accepted_not_200)
  with assms(2) show False by simp
qed

text \<open>
  A vote that holds the copy \<open>p\<close> and goes on from there, whatever the store holds: if it
  is answered 200, it has stored \<open>p\<close> with its vote.
\<close>

lemma held_copy_written:
  assumes "run e [0, 0] [(r, Decide (Some p))] w' = ([(r, Done (Reply 200 b))], w2)"
  shows "proposals w2 =
           (proposals w')(''proposal:'' @ v_id r \<mapsto>
              \<lparr>val = p\<lparr>approvals := approvals p @ [pushed (validatorId r)],
                       status := if length (approvals p) + 1 < THRESHOLD
                                 then ''PENDING'' else ''EXECUTED''\<rparr>,
               expires = None\<rparr>)"
proof (cases "accepted e r p")
  case False
  obtain d w1 where d: "decide e r (Some p) w' = (d, w1)" by (cases "decide e r (Some p) w'")
  from decide_not_accepted [OF False, of w'] d
  have "d \<in> {Inl (error_reply 400 ''Finalized''), Inl (error_reply 409 ''Voted''),
      Inl (error_reply 401 ''Bad Sig''), Inl (error_reply 500 ''Internal Error'')}"
    by simp
  with d assms show ?thesis by (auto simp add: error_reply_def)
next
  case True
  then have "status p = ''PENDING''" by (simp add: accepted_def)
  then have v: "(voted r p)\<lparr>status := ''PENDING''\<rparr> = voted r p" by (simp add: voted_def)
  from assms decide_accepted [OF True, of w']
  have "proposals w2 =
           (proposals w')(''proposal:'' @ v_id r \<mapsto>
              \<lparr>val = (voted r p)\<lparr>status := if length (approvals p) + 1 < THRESHOLD
                                 then ''PENDING'' else ''EXECUTED''\<rparr>,
               expires = None\<rparr>)"
    by (auto simp add: v commit_def redis_set_def error_reply_def split: if_splits)
  then show ?thesis by (simp add: voted_def)
qed

text \<open>
  C2, amended. Only the next index of the audit log comes from a single primitive of
  the store: an append is one \<^verbatim>\<open>RPUSH\<close>, and the index it returns is the length of the
  list with its own entry. A vote changes the approvals and the status of a proposal by
  fetching the record, changing the copy in memory and writing the copy back with an
  unconditional \<^verbatim>\<open>SET\<close>: a vote that holds a fetched copy and is answered 200 has stored
  that copy with its own vote added, and with the status EXECUTED once these approvals
  reach the threshold, whatever the store held by then. A delivery of the
  \<^verbatim>\<open>verified\<close> event changes the status of a session the same way: it stores the copy it
  fetched with the status VERIFIED_AND_LOGGED, whatever the store held by then. Two
  votes on one proposal that run in turn, the second fetching after the first has
  written, and that are both answered 200, are both in the stored approvals, and the
  issuer agent has been called at most once.
\<close>

theorem votes_in_turn:
  assumes "fetch r1 w = Some p" and "v_id r2 = v_id r1"
    and "castVote e r1 w = (Reply 200 b1, w1)" and "castVote e r2 w1 = (Reply 200 b2, w2)"
  shows "run e [0, 0, 0, 1, 1, 1] [(r1, Fetch), (r2, Fetch)] w =
           ([(r1, Done (Reply 200 b1)), (r2, Done (Reply 200 b2))], w2) \<and>
         (\<exists>p2. proposals w2 (''proposal:'' @ v_id r1) = Some \<lparr>val = p2, expires = None\<rparr> \<and>
               approvals p2 = approvals p @ [pushed (validatorId r1), pushed (validatorId r2)]) \<and>
         length (issuer_calls w2) \<le> length (issuer_calls w) + 1 \<and>
         (\<forall>r q w' b u.
            run e [0, 0] [(r, Decide (Some q))] w' = ([(r, Done (Reply 200 b))], u) \<longrightarrow>
            proposals u =
              (proposals w')(''proposal:'' @ v_id r \<mapsto>
                 \<lparr>val = q\<lparr>approvals := approvals q @ [pushed (validatorId r)],
                          status := if length (approvals q) + 1 < THRESHOLD
                                    then ''PENDING'' else ''EXECUTED''\<rparr>,
                  expires = None\<rparr>)) \<and>
         (\<forall>g h s k u.
            map_of (h_body h) ''state'' = Some (JStr ''verified'') \<and>
            (map_of (h_body h) ''verified'' = Some (JStr ''true'') \<or>
             map_of (h_body h) ''verified'' = Some (JBool True)) \<and>
            session_key (map_of (h_body h) ''presentation_exchange_id'') = Some k \<longrightarrow>
            webhook g h u = hook_write g h (hook_fetch h u) u \<and>
            hook_fetch h u = redis_get (h_now h) (sessions u) k \<and>
            sessions (snd (hook_write g h (Some s) u)) =
              redis_set_ex (h_now h) (sessions u) k (s\<lparr>s_status := ''VERIFIED_AND_LOGGED''\<rparr>) 3600) \<and>
         (\<forall>a l. logIndex (fst (log_entries a l)) \<noteq> None \<longrightarrow>
            log_entries a l =
              (Reply 201
                 (JObj [(''uuid'', JStr (a_uuid a)),
                        (''logIndex'',
                         JNum (dec (fst (rPush l \<lparr>uuid = a_uuid a, timestamp = a_now a,
                                                  body = the (a_body a)\<rparr>)))),
                        (''nodepix'', JStr ''mock-proof'')]),
               snd (rPush l \<lparr>uuid = a_uuid a, timestamp = a_now a, body = the (a_body a)\<rparr>)) \<and>
            logIndex (fst (log_entries a l)) = Some (length (snd (log_entries a l))))"
proof -
  have run: "run e [0, 0, 0, 1, 1, 1] [(r1, Fetch), (r2, Fetch)] w =
           ([(r1, Done (Reply 200 b1)), (r2, Done (Reply 200 b2))], w2)"
    using assms(3,4) by (subst run_alone_then_alone) simp
  from assms(1,3) have a1: "accepted e r1 p" by (rule reply_200_accepted)
  then have pend: "status p = ''PENDING''" by (simp add: accepted_def)
  let ?k = "''proposal:'' @ v_id r1"
  have eq: "(Reply 200 b1, w1) =
     (if length (approvals p) + 1 < THRESHOLD then commit r1 (voted r1 p) w
      else if action p = Some (JStr ''REVOKE_CREDENTIAL'') then
        if issuer_up r1 then commit r1 ((voted r1 p)\<lparr>status := ''EXECUTED''\<rparr>) (called p w)
        else (error_reply 500 ''Internal Error'', called p w)
      else commit r1 ((voted r1 p)\<lparr>status := ''EXECUTED''\<rparr>) w)"
    using castVote_accepted [OF assms(1) a1] assms(3) by simp
  have below: "length (approvals p) + 1 < THRESHOLD"
  proof (rule ccontr)
    assume "\<not> length (approvals p) + 1 < THRESHOLD"
    with eq have "\<exists>c. (Reply 200 b1, w1) = commit r1 ((voted r1 p)\<lparr>status := ''EXECUTED''\<rparr>) c"
      by (auto simp add: error_reply_def split: if_splits)
    then obtain c where "(Reply 200 b1, w1) = commit r1 ((voted r1 p)\<lparr>status := ''EXECUTED''\<rparr>) c" ..
    then have "w1 = snd (commit r1 ((voted r1 p)\<lparr>status := ''EXECUTED''\<rparr>) c)"
      by (metis snd_conv)
    then have "fetch r2 w1 = Some ((voted r1 p)\<lparr>status := ''EXECUTED''\<rparr>)"
      using assms(2) by (simp add: fetch_def redis_get_def proposals_commit)
    then have "castVote e r2 w1 = (error_reply 400 ''Finalized'', w1)"
      by (rule castVote_finalized) simp
    with assms(4) show False by (simp add: error_reply_def)
  qed
  with eq have "(Reply 200 b1, w1) = commit r1 (voted r1 p) w" by simp
  then have w1: "w1 = snd (commit r1 (voted r1 p) w)" by (metis snd_conv)
  then have f2: "fetch r2 w1 = Some (voted r1 p)"
    using assms(2) by (simp add: fetch_def redis_get_def proposals_commit)
  from f2 assms(4) have a2: "accepted e r2 (voted r1 p)" by (rule reply_200_accepted)
  from castVote_accepted [OF f2 a2] assms(4) assms(2) w1
  have both: "(\<exists>p2. proposals w2 ?k = Some \<lparr>val = p2, expires = None\<rparr> \<and>
               approvals p2 = approvals p @ [pushed (validatorId r1), pushed (validatorId r2)]) \<and>
         length (issuer_calls w2) \<le> length (issuer_calls w) + 1"
    by (auto simp add: error_reply_def commit_def redis_set_def voted_def called_def split: if_splits)
  have vote: "proposals u =
              (proposals w')(''proposal:'' @ v_id r \<mapsto>
                 \<lparr>val = q\<lparr>approvals := approvals q @ [pushed (validatorId r)],
                          status := if length (approvals q) + 1 < THRESHOLD
                                    then ''PENDING'' else ''EXECUTED''\<rparr>,
                  expires = None\<rparr>)"
    if "run e [0, 0] [(r, Decide (Some q))] w' = ([(r, Done (Reply 200 b))], u)" for r q w' b u
    using that by (rule held_copy_written)
  have session: "webhook g h u = hook_write g h (hook_fetch h u) u \<and>
            hook_fetch h u = redis_get (h_now h) (sessions u) k \<and>
            sessions (snd (hook_write g h (Some s) u)) =
              redis_set_ex (h_now h) (sessions u) k (s\<lparr>s_status := ''VERIFIED_AND_LOGGED''\<rparr>) 3600"
    if "map_of (h_body h) ''state'' = Some (JStr ''verified'') \<and>
            (map_of (h_body h) ''verified'' = Some (JStr ''true'') \<or>
             map_of (h_body h) ''verified'' = Some (JBool True)) \<and>
            session_key (map_of (h_body h) ''presentation_exchange_id'') = Some k" for g h s k u
  proof -
    from that have c: "map_of (h_body h) ''state'' = Some (JStr ''verified'')"
      "map_of (h_body h) ''verified'' = Some (JStr ''true'') \<or>
       map_of (h_body h) ''verified'' = Some (JBool True)"
      "session_key (map_of (h_body h) ''presentation_exchange_id'') = Some k"
      by simp_all
    from hook_write_success [OF c, of g s u] c(3) show ?thesis
      by (simp add: webhook_def hook_fetch_def)
  qed
  have log: "log_entries a l =
              (Reply 201
                 (JObj [(''uuid'', JStr (a_uuid a)),
                        (''logIndex'',
                         JNum (dec (fst (rPush l \<lparr>uuid = a_uuid a, timestamp = a_now a,
                                                  body = the (a_body a)\<rparr>)))),
                        (''nodepix'', JStr ''mock-proof'')]),
               snd (rPush l \<lparr>uuid = a_uuid a, timestamp = a_now a, body = the (a_body a)\<rparr>)) \<and>
            logIndex (fst (log_entries a l)) = Some (length (snd (log_entries a l)))"
    if "logIndex (fst (log_entries a l)) \<noteq> None" for a l
    using that
    by (auto simp add: log_entries_def invalid_payload_def error_reply_def logIndex_def rPush_def
        undec_dec split: option.splits if_splits)
  from run both vote session log show ?thesis by blast
qed

theorem votes_in_turn_witness:
  "run test_env [0, 0, 0, 1, 1, 1]
     [(test_vote (JStr ''validator_2'') ''K2'' ''REVOKE_CREDENTIAL'' True, Fetch),
      (test_vote (JStr ''validator_3'') ''K3'' ''REVOKE_CREDENTIAL'' True, Fetch)]
     (test_world ''REVOKE_CREDENTIAL'' [JStr ''validator_1'']) =
   ([(test_vote (JStr ''validator_2'') ''K2'' ''REVOKE_CREDENTIAL'' True,
      Done (Reply 200 (JObj [(''status'', JStr ''PENDING'')]))),
     (test_vote (JStr ''validator_3'') ''K3'' ''REVOKE_CREDENTIAL'' True,
      Done (Reply 200 (JObj [(''status'', JStr ''EXECUTED'')])))],
    \<lparr>proposals =
       [''proposal:'' @ idA \<mapsto>
          \<lparr>val = (test_proposal idA ''REVOKE_CREDENTIAL''
                    [JStr ''validator_1'', JStr ''validator_2'', JStr ''validator_3''])
                  \<lparr>status := ''EXECUTED''\<rparr>,
           expires = None\<rparr>],
     issuer_calls = [JObj [(''cred_rev_id'', JStr ''1''), (''publish'', JBool True)]]\<rparr>)"
proof -
  let ?r1 = "test_vote (JStr ''validator_2'') ''K2'' ''REVOKE_CREDENTIAL'' True"
  let ?r2 = "test_vote (JStr ''validator_3'') ''K3'' ''REVOKE_CREDENTIAL'' True"
  let ?w = "test_world ''REVOKE_CREDENTIAL'' [JStr ''validator_1'']"
  let ?w1 = "\<lparr>proposals =
       [''proposal:'' @ idA \<mapsto>
          \<lparr>val = test_proposal idA ''REVOKE_CREDENTIAL'' [JStr ''validator_1'', JStr ''validator_2''],
           expires = None\<rparr>],
     issuer_calls = []\<rparr>"
  let ?w2 = "\<lparr>proposals =
       [''proposal:'' @ idA \<mapsto>
          \<lparr>val = (test_proposal idA ''REVOKE_CREDENTIAL''
                    [JStr ''validator_1'', JStr ''validator_2'', JStr ''validator_3''])
                  \<lparr>status := ''EXECUTED''\<rparr>,
           expires = None\<rparr>],
     issuer_calls = [JObj [(''cred_rev_id'', JStr ''1''), (''publish'', JBool True)]]\<rparr>"
  have f: "fetch ?r1 ?w = Some (test_proposal idA ''REVOKE_CREDENTIAL'' [JStr ''validator_1''])"
    by (simp add: test_defs fetch_def redis_get_def)
  have i: "v_id ?r2 = v_id ?r1"
    by (simp add: test_vote_def)
  have c1: "castVote test_env ?r1 ?w = (Reply 200 (JObj [(''status'', JStr ''PENDING'')]), ?w1)"
    by (simp add: test_defs vote_defs)
  have c2: "castVote test_env ?r2 ?w1 = (Reply 200 (JObj [(''status'', JStr ''EXECUTED'')]), ?w2)"
    by (simp add: test_defs vote_defs)
  from votes_in_turn [OF f i c1 c2] show ?thesis by blast
qed

section \<open>What a signature is bound to\<close>

lemma test_verify_binds:
  "test_verify m k s = Some True \<Longrightarrow> test_verify m' k s = Some True \<Longrightarrow> m' = m"
  by (auto simp add: test_verify_def split: option.splits json.splits)

text \<open>
  The vote handler verifies the signature over \<open>message\<close>. Take \<^verbatim>\<open>crypto.verify\<close> to
  accept a signature, under one key, for one message only. Then a signature that
  verifies for the message of the proposal \<open>pA\<close> with the id \<open>a\<close> is turned away, and
  nothing changes, when it is cast on a stored proposal that has another id, another
  payload, or an action whose text is another.
\<close>

lemma signature_bound_to_text:
  assumes binds: "\<And>m m' k s. crypto_verify e m k s = Some True \<Longrightarrow>
                    crypto_verify e m' k s = Some True \<Longrightarrow> m' = m"
    and name: "js_string (validatorId r) = Some name"
    and key: "VALIDATORS e name = Some key"
    and signed: "message a pA = Some mA"
    and valid: "crypto_verify e mA key (signature r) = Some True"
    and target: "fetch r w = Some pB"
    and shape: "uuid_shaped a" "uuid_shaped (v_id r)"
    and parsed: "wf_payload (payload pA)" "wf_payload (payload pB)"
    and other: "v_id r \<noteq> a \<or> js_string (action pB) \<noteq> js_string (action pA) \<or>
                payload pB \<noteq> payload pA"
  shows "snd (castVote e r w) = w \<and>
         fst (castVote e r w) \<in>
           {error_reply 400 ''Finalized'', error_reply 409 ''Voted'',
            error_reply 401 ''Bad Sig'', error_reply 500 ''Internal Error''}"
proof -
  have "\<not> accepted e r pB"
  proof
    assume acc: "accepted e r pB"
    then obtain mB where mB: "message (v_id r) pB = Some mB"
      by (auto simp add: accepted_def split: option.splits)
    with acc name key have "crypto_verify e mB key (signature r) = Some True"
      by (simp add: accepted_def)
    with binds [OF valid] have "mB = mA" by blast
    with mB have "message (v_id r) pB = Some mA" by simp
    from message_inj [OF shape(2) shape(1) parsed(2) parsed(1) this signed] other
    show False by blast
  qed
  with target show ?thesis by (rule castVote_not_accepted)
qed

text \<open>
  C7. The message holds the action as \<^verbatim>\<open>String(action)\<close>, and a proposal is stored with
  whatever action the request gave. A signature of \<^verbatim>\<open>validator_1\<close> made for the
  proposal whose action is the string \<^verbatim>\<open>REVOKE_CREDENTIAL\<close> is turned away on another
  proposal and on this proposal with another payload or another string as its action,
  but it is accepted on this proposal with the one-element array
  \<^verbatim>\<open>["REVOKE_CREDENTIAL"]\<close> as its action: the two messages are the same text. The
  third such vote finalises that proposal, and no revocation is made.
\<close>

theorem array_action_keeps_signature:
  "snd (createProposal
          \<lparr>c_now = 0, c_uuid = idA, c_action = Some (JArr [JStr ''REVOKE_CREDENTIAL'']),
           c_payload = Some (JObj [(''cred_rev_id'', JStr ''1'')]),
           c_username = Some (JStr ''admin'')\<rparr>
          \<lparr>proposals = Map.empty, issuer_calls = []\<rparr>) = array_action_world \<and>
   castVote test_env replayed_vote world_B = (error_reply 401 ''Bad Sig'', world_B) \<and>
   castVote test_env (test_vote (JStr ''validator_1'') ''K1'' ''REVOKE_CREDENTIAL'' True)
     (tampered_world (Some (JStr ''REVOKE_CREDENTIAL'')) (Some (JObj [(''cred_rev_id'', JStr ''2'')]))) =
     (error_reply 401 ''Bad Sig'',
      tampered_world (Some (JStr ''REVOKE_CREDENTIAL'')) (Some (JObj [(''cred_rev_id'', JStr ''2'')]))) \<and>
   castVote test_env (test_vote (JStr ''validator_1'') ''K1'' ''REVOKE_CREDENTIAL'' True)
     (tampered_world (Some (JStr ''ROTATE_KEY'')) (Some (JObj [(''cred_rev_id'', JStr ''1'')]))) =
     (error_reply 401 ''Bad Sig'',
      tampered_world (Some (JStr ''ROTATE_KEY'')) (Some (JObj [(''cred_rev_id'', JStr ''1'')]))) \<and>
   message idA ((test_proposal idA ''REVOKE_CREDENTIAL'' [])
                \<lparr>action := Some (JArr [JStr ''REVOKE_CREDENTIAL''])\<rparr>) =
     message idA (test_proposal idA ''REVOKE_CREDENTIAL'' []) \<and>
   castVote test_env (test_vote (JStr ''validator_1'') ''K1'' ''REVOKE_CREDENTIAL'' True)
     array_action_world =
     (Reply 200 (JObj [(''status'', JStr ''PENDING'')]),
      \<lparr>proposals =
         [''proposal:'' @ idA \<mapsto>
            \<lparr>val = (test_proposal idA ''REVOKE_CREDENTIAL'' [JStr ''validator_1''])
                    \<lparr>action := Some (JArr [JStr ''REVOKE_CREDENTIAL''])\<rparr>,
             expires = None\<rparr>],
       issuer_calls = []\<rparr>) \<and>
   run test_env [0, 0, 0, 1, 1, 1, 2, 2, 2]
     [(test_vote (JStr ''validator_1'') ''K1'' ''REVOKE_CREDENTIAL'' True, Fetch),
      (test_vote (JStr ''validator_2'') ''K2'' ''REVOKE_CREDENTIAL'' True, Fetch),
      (test_vote (JStr ''validator_3'') ''K3'' ''REVOKE_CREDENTIAL'' True, Fetch)]
     array_action_world =
   ([(test_vote (JStr ''validator_1'') ''K1'' ''REVOKE_CREDENTIAL'' True,
      Done (Reply 200 (JObj [(''status'', JStr ''PENDING'')]))),
     (test_vote (JStr ''validator_2'') ''K2'' ''REVOKE_CREDENTIAL'' True,
      Done (Reply 200 (JObj [(''status'', JStr ''PENDING'')]))),
     (test_vote (JStr ''validator_3'') ''K3'' ''REVOKE_CREDENTIAL'' True,
      Done (Reply 200 (JObj [(''status'', JStr ''EXECUTED'')])))],
    \<lparr>proposals =
       [''proposal:'' @ idA \<mapsto>
          \<lparr>val = (test_proposal idA ''REVOKE_CREDENTIAL''
                    [JStr ''validator_1'', JStr ''validator_2'', JStr ''validator_3''])
                  \<lparr>action := Some (JArr [JStr ''REVOKE_CREDENTIAL'']), status := ''EXECUTED''\<rparr>,
           expires = None\<rparr>],
     issuer_calls = []\<rparr>)"
proof -
  have q: "quote ''1'' \<noteq> quote ''2''"
    using quote_inj [of "''1''" "[]" "''2''" "[]"] by auto
  show ?thesis
    by (simp add: test_defs vote_defs replayed_vote_def world_B_def idB_def tampered_world_def
        array_action_world_def createProposal_def redis_set_ex_def q)
qed

end
